theory Spec2Isabelle
  imports Main "HOL-Library.Word"
begin

unbundle bit_operations_syntax

section \<open>Machine types of the contract\<close>

type_synonym u8 = "8 word"
type_synonym u16 = "16 word"
type_synonym u32 = "32 word"
type_synonym u256 = "256 word"
type_synonym bytes = "u8 list"

text \<open>
  An \<open>Address\<close> is a \<open>Uint8Array\<close> of exactly 32 bytes. It is modelled by the 256-bit
  word whose big-endian bytes are the address, so that \<open>Address.equals\<close> is equality and
  \<open>Address.zero()\<close> is \<open>0\<close>.
\<close>

type_synonym Address = "256 word"

datatype error = Revert string | RangeError string

subsection \<open>Big-endian byte strings\<close>

text \<open>The \<open>n\<close> low-order bytes of a number, most significant byte first.\<close>

fun nat_to_be :: "nat \<Rightarrow> nat \<Rightarrow> bytes" where
  "nat_to_be 0 v = []"
| "nat_to_be (Suc n) v = nat_to_be n (v div 256) @ [of_nat (v mod 256)]"

definition be_to_nat :: "bytes \<Rightarrow> nat" where
  "be_to_nat bs = foldl (\<lambda>acc b. acc * 256 + unat b) 0 bs"

text \<open>\<open>u256.toUint8Array(true)\<close> and \<open>u256.fromUint8ArrayBE\<close> of the bignum library.\<close>

definition toUint8Array :: "u256 \<Rightarrow> bytes" where
  "toUint8Array v = nat_to_be 32 (unat v)"

definition fromUint8ArrayBE :: "bytes \<Rightarrow> u256" where
  "fromUint8ArrayBE bs = of_nat (be_to_nat bs)"

text \<open>
  The byte copies of the source, \<open>for (i = 0; i < n; i++) dst[d + i] = src[s + i]\<close>:
  the first \<open>n\<close> iterations, the last of them writing index \<open>d + n - 1\<close>.
\<close>

fun copy_bytes :: "bytes \<Rightarrow> nat \<Rightarrow> bytes \<Rightarrow> nat \<Rightarrow> nat \<Rightarrow> bytes" where
  "copy_bytes dst d src s 0 = dst"
| "copy_bytes dst d src s (Suc n) = (copy_bytes dst d src s n)[d + n := src ! (s + n)]"

text \<open>\<open>new Uint8Array(n)\<close>: \<open>n\<close> zero bytes.\<close>

definition new_Uint8Array :: "nat \<Rightarrow> bytes" where
  "new_Uint8Array n = replicate n 0"

section \<open>Sub-pointer encoding helpers\<close>

definition u256ToSubPointer :: "u256 \<Rightarrow> bytes" where
  "u256ToSubPointer v =
     (let bytes32 = toUint8Array v;
          sub = new_Uint8Array 30
      in copy_bytes sub 0 bytes32 2 30)"

definition addressToSubPointer :: "Address \<Rightarrow> bytes" where
  "addressToSubPointer addr =
     (let sub = new_Uint8Array 30
      in copy_bytes sub 0 (toUint8Array addr) 2 30)"

text \<open>The loop \<open>for (i = 0; i < n; i++) result[i] = a[i] ^ b[i]\<close>.\<close>

fun xor_bytes :: "bytes \<Rightarrow> bytes \<Rightarrow> bytes \<Rightarrow> nat \<Rightarrow> bytes" where
  "xor_bytes result a b 0 = result"
| "xor_bytes result a b (Suc n) = (xor_bytes result a b n)[n := (a ! n) XOR (b ! n)]"

definition addressIndexSubPointer :: "Address \<Rightarrow> u256 \<Rightarrow> bytes" where
  "addressIndexSubPointer addr index =
     (let addrSub = addressToSubPointer addr;
          idxSub = u256ToSubPointer index;
          result = new_Uint8Array 30
      in xor_bytes result addrSub idxSub 30)"

definition compoundSubPointer :: "u256 \<Rightarrow> u256 \<Rightarrow> bytes" where
  "compoundSubPointer a b =
     (let aSub = u256ToSubPointer a;
          bSub = u256ToSubPointer b;
          result = new_Uint8Array 30
      in xor_bytes result aSub bSub 30)"

section \<open>Storage substrate\<close>

text \<open>
  The host's key-value store: 32-byte keys, 32-byte slots. A key that was never written
  reads as 32 zero bytes.
\<close>

type_synonym storage = "bytes \<rightharpoonup> bytes"

definition getStorageAt :: "storage \<Rightarrow> bytes \<Rightarrow> bytes" where
  "getStorageAt st key = (case st key of None \<Rightarrow> new_Uint8Array 32 | Some v \<Rightarrow> v)"

definition setStorageAt :: "storage \<Rightarrow> bytes \<Rightarrow> bytes \<Rightarrow> storage" where
  "setStorageAt st key v = st(key \<mapsto> v)"

text \<open>
  Modelled from the spec: \<open>encodePointer\<close> and \<open>bigEndianAdd\<close> belong to the runtime
  library and are not part of the sources. A storage key is derived from the pointer
  namespace and the sub-pointer: the two bytes of the pointer followed by the 30 bytes of
  the sub-pointer. The key of slot \<open>N\<close> is the base key plus \<open>N\<close>, added as big-endian
  integers over the 32 bytes of the key.
\<close>

definition encodePointer :: "u16 \<Rightarrow> bytes \<Rightarrow> bytes" where
  "encodePointer uniqueIdentifier typed =
     [ucast (uniqueIdentifier AND 0xff), ucast (drop_bit 8 uniqueIdentifier AND 0xff)] @ typed"

definition bigEndianAdd :: "bytes \<Rightarrow> nat \<Rightarrow> bytes" where
  "bigEndianAdd base increment = nat_to_be 32 (be_to_nat base + increment)"

section \<open>Multi-slot byte storage\<close>

definition MAX_BYTE_SLOTS :: nat where
  "MAX_BYTE_SLOTS = 256"

text \<open>
  The largest typed array the AssemblyScript runtime allocates; \<open>new Uint8Array(length)\<close>
  throws a \<open>RangeError\<close> above it.
\<close>

definition BLOCK_MAXSIZE :: nat where
  "BLOCK_MAXSIZE = 1073741820"

text \<open>
  The second loop of \<open>storeMultiSlotBytes\<close>, from \<open>offset\<close> and \<open>slotIndex\<close> on.
  The length of a \<open>Uint8Array\<close> is below \<open>2^30\<close>, so the \<open>u32\<close> offset does not wrap.
\<close>

function store_slots :: "bytes \<Rightarrow> bytes \<Rightarrow> nat \<Rightarrow> nat \<Rightarrow> storage \<Rightarrow> storage" where
  "store_slots baseKey data offset slotIndex st =
     (if offset < length data then
        (let slotKey = bigEndianAdd baseKey slotIndex;
             slotData = new_Uint8Array 32;
             remaining = length data - offset;
             toCopy = (if remaining < 32 then remaining else 32);
             slotData = copy_bytes slotData 0 data offset toCopy;
             st = setStorageAt st slotKey slotData
         in store_slots baseKey data (offset + 32) (slotIndex + 1) st)
      else st)"
  by pat_completeness auto
termination
  by (relation "measure (\<lambda>(baseKey, data, offset, slotIndex, st). length data - offset)") auto

declare store_slots.simps [simp del]

definition storeMultiSlotBytes :: "u16 \<Rightarrow> bytes \<Rightarrow> bytes \<Rightarrow> storage \<Rightarrow> error + storage" where
  "storeMultiSlotBytes pointer subPointer data st =
     (let len = length data;
          maxDataBytes = MAX_BYTE_SLOTS * 32 - 4
      in if len > maxDataBytes then Inl (Revert ''Data exceeds maximum storage capacity'')
         else
           (let baseKey = encodePointer pointer subPointer;
                length32 = (of_nat len :: u32);
                slot0 = (new_Uint8Array 32)
                  [0 := ucast (drop_bit 24 length32 AND 0xff),
                   1 := ucast (drop_bit 16 length32 AND 0xff),
                   2 := ucast (drop_bit 8 length32 AND 0xff),
                   3 := ucast (length32 AND 0xff)];
                firstChunkSize = (if len < 28 then len else 28);
                slot0 = copy_bytes slot0 4 data 0 firstChunkSize;
                st = setStorageAt st baseKey slot0
            in Inr (store_slots baseKey data 28 1 st)))"

text \<open>
  The second loop of \<open>loadMultiSlotBytes\<close>. It runs only for lengths that passed the
  allocation of \<open>result\<close>, so here too the \<open>u32\<close> offset does not wrap.
\<close>

function load_slots :: "bytes \<Rightarrow> storage \<Rightarrow> nat \<Rightarrow> nat \<Rightarrow> nat \<Rightarrow> bytes \<Rightarrow> bytes" where
  "load_slots baseKey st len offset slotIndex result =
     (if offset < len then
        (let slotKey = bigEndianAdd baseKey slotIndex;
             slotData = getStorageAt st slotKey;
             remaining = len - offset;
             toCopy = (if remaining < 32 then remaining else 32);
             result = copy_bytes result offset slotData 0 toCopy
         in load_slots baseKey st len (offset + 32) (slotIndex + 1) result)
      else result)"
  by pat_completeness auto
termination
  by (relation "measure (\<lambda>(baseKey, st, len, offset, slotIndex, result). len - offset)") auto

declare load_slots.simps [simp del]

definition loadMultiSlotBytes :: "u16 \<Rightarrow> bytes \<Rightarrow> storage \<Rightarrow> error + bytes" where
  "loadMultiSlotBytes pointer subPointer st =
     (let baseKey = encodePointer pointer subPointer;
          slot0 = getStorageAt st baseKey;
          b0 = (ucast (slot0 ! 0) :: u32);
          b1 = (ucast (slot0 ! 1) :: u32);
          b2 = (ucast (slot0 ! 2) :: u32);
          b3 = (ucast (slot0 ! 3) :: u32);
          length32 = push_bit 24 b0 OR push_bit 16 b1 OR push_bit 8 b2 OR b3
      in if length32 = 0 then Inr (new_Uint8Array 0)
         else if unat length32 > BLOCK_MAXSIZE then Inl (RangeError ''Invalid length'')
         else
           (let len = unat length32;
                result = new_Uint8Array len;
                firstChunkSize = (if len < 28 then len else 28);
                result = copy_bytes result 0 slot0 4 firstChunkSize
            in Inr (load_slots baseKey st len 28 1 result)))"

section \<open>The contract\<close>

text \<open>Status constants for a Dead Man's Switch.\<close>

definition STATUS_ACTIVE :: u256 where
  "STATUS_ACTIVE = 0"

definition STATUS_TRIGGERED :: u256 where
  "STATUS_TRIGGERED = 1"

definition STATUS_CANCELLED :: u256 where
  "STATUS_CANCELLED = 2"

datatype event =
    SwitchCreatedEvent u256 Address Address
  | CheckedInEvent u256 u256
  | DataStoredEvent u256 u256
  | SwitchTriggeredEvent u256 Address u256
  | SwitchCancelledEvent u256 u256
  | BeneficiaryUpdatedEvent u256 Address

text \<open>The ambient context of a call: \<open>Blockchain.tx.sender\<close> and \<open>Blockchain.block.numberU256\<close>.\<close>

record env =
  sender :: Address
  blockNumber :: u256

text \<open>The durable state: the key-value store and the events emitted so far.\<close>

record contract =
  store :: storage
  events :: "event list"

definition emitEvent :: "event \<Rightarrow> contract \<Rightarrow> contract" where
  "emitEvent ev c = c\<lparr>events := events c @ [ev]\<rparr>"

text \<open>
  Modelled from the spec: \<open>SafeMath\<close> belongs to the runtime library. Additions and
  subtractions are checked; an overflow or underflow aborts the operation.
\<close>

definition SafeMath_add :: "u256 \<Rightarrow> u256 \<Rightarrow> error + u256" where
  "SafeMath_add a b =
     (let c = a + b in if c < a then Inl (Revert ''SafeMath: addition overflow'') else Inr c)"

definition SafeMath_sub :: "u256 \<Rightarrow> u256 \<Rightarrow> error + u256" where
  "SafeMath_sub a b =
     (if a < b then Inl (Revert ''SafeMath: subtraction overflow'') else Inr (a - b))"

subsection \<open>Pointer allocations, in declaration order\<close>

definition nextSwitchIdPointer :: u16 where "nextSwitchIdPointer = 0"
definition switchOwnerPointer :: u16 where "switchOwnerPointer = 1"
definition switchBeneficiaryPointer :: u16 where "switchBeneficiaryPointer = 2"
definition switchIntervalPointer :: u16 where "switchIntervalPointer = 3"
definition switchGracePeriodPointer :: u16 where "switchGracePeriodPointer = 4"
definition switchLastCheckinPointer :: u16 where "switchLastCheckinPointer = 5"
definition switchStatusPointer :: u16 where "switchStatusPointer = 6"
definition switchTriggerBlockPointer :: u16 where "switchTriggerBlockPointer = 7"
definition switchChunkCountPointer :: u16 where "switchChunkCountPointer = 8"
definition switchEncryptedKeyPointer :: u16 where "switchEncryptedKeyPointer = 9"
definition switchDataChunksPointer :: u16 where "switchDataChunksPointer = 10"
definition ownerSwitchCountPointer :: u16 where "ownerSwitchCountPointer = 11"
definition ownerSwitchIndexPointer :: u16 where "ownerSwitchIndexPointer = 12"

definition EMPTY_POINTER :: bytes where
  "EMPTY_POINTER = new_Uint8Array 30"

text \<open>The \<open>StoredU256\<close> counter \<open>nextSwitchId\<close>: its \<open>value\<close> getter and setter.\<close>

definition nextSwitchId_value :: "contract \<Rightarrow> u256" where
  "nextSwitchId_value c =
     fromUint8ArrayBE (getStorageAt (store c) (encodePointer nextSwitchIdPointer EMPTY_POINTER))"

definition set_nextSwitchId_value :: "u256 \<Rightarrow> contract \<Rightarrow> contract" where
  "set_nextSwitchId_value v c =
     c\<lparr>store := setStorageAt (store c) (encodePointer nextSwitchIdPointer EMPTY_POINTER)
                   (toUint8Array v)\<rparr>"

definition onDeployment :: "contract \<Rightarrow> contract" where
  "onDeployment c = set_nextSwitchId_value 1 c"

subsection \<open>Storage accessor helpers\<close>

definition setAddressForSwitch :: "u16 \<Rightarrow> u256 \<Rightarrow> Address \<Rightarrow> contract \<Rightarrow> contract" where
  "setAddressForSwitch pointer switchId addr c =
     (let subPtr = u256ToSubPointer switchId;
          key = encodePointer pointer subPtr
      in c\<lparr>store := setStorageAt (store c) key (toUint8Array addr)\<rparr>)"

definition getAddressForSwitch :: "u16 \<Rightarrow> u256 \<Rightarrow> contract \<Rightarrow> Address" where
  "getAddressForSwitch pointer switchId c =
     (let subPtr = u256ToSubPointer switchId;
          key = encodePointer pointer subPtr;
          slot = getStorageAt (store c) key
      in fromUint8ArrayBE slot)"

definition setU256ForSwitch :: "u16 \<Rightarrow> u256 \<Rightarrow> u256 \<Rightarrow> contract \<Rightarrow> contract" where
  "setU256ForSwitch pointer switchId v c =
     (let subPtr = u256ToSubPointer switchId;
          key = encodePointer pointer subPtr
      in c\<lparr>store := setStorageAt (store c) key (toUint8Array v)\<rparr>)"

definition getU256ForSwitch :: "u16 \<Rightarrow> u256 \<Rightarrow> contract \<Rightarrow> u256" where
  "getU256ForSwitch pointer switchId c =
     (let subPtr = u256ToSubPointer switchId;
          key = encodePointer pointer subPtr;
          slot = getStorageAt (store c) key
      in fromUint8ArrayBE slot)"

definition storeSwitchOwner :: "u256 \<Rightarrow> Address \<Rightarrow> contract \<Rightarrow> contract" where
  "storeSwitchOwner switchId owner c = setAddressForSwitch switchOwnerPointer switchId owner c"

definition loadSwitchOwner :: "u256 \<Rightarrow> contract \<Rightarrow> Address" where
  "loadSwitchOwner switchId c = getAddressForSwitch switchOwnerPointer switchId c"

definition storeSwitchBeneficiary :: "u256 \<Rightarrow> Address \<Rightarrow> contract \<Rightarrow> contract" where
  "storeSwitchBeneficiary switchId beneficiary c =
     setAddressForSwitch switchBeneficiaryPointer switchId beneficiary c"

definition loadSwitchBeneficiary :: "u256 \<Rightarrow> contract \<Rightarrow> Address" where
  "loadSwitchBeneficiary switchId c = getAddressForSwitch switchBeneficiaryPointer switchId c"

definition storeSwitchInterval :: "u256 \<Rightarrow> u256 \<Rightarrow> contract \<Rightarrow> contract" where
  "storeSwitchInterval switchId interval c = setU256ForSwitch switchIntervalPointer switchId interval c"

definition loadSwitchInterval :: "u256 \<Rightarrow> contract \<Rightarrow> u256" where
  "loadSwitchInterval switchId c = getU256ForSwitch switchIntervalPointer switchId c"

definition storeSwitchGracePeriod :: "u256 \<Rightarrow> u256 \<Rightarrow> contract \<Rightarrow> contract" where
  "storeSwitchGracePeriod switchId gracePeriod c =
     setU256ForSwitch switchGracePeriodPointer switchId gracePeriod c"

definition loadSwitchGracePeriod :: "u256 \<Rightarrow> contract \<Rightarrow> u256" where
  "loadSwitchGracePeriod switchId c = getU256ForSwitch switchGracePeriodPointer switchId c"

definition storeSwitchLastCheckin :: "u256 \<Rightarrow> u256 \<Rightarrow> contract \<Rightarrow> contract" where
  "storeSwitchLastCheckin switchId lastCheckin c =
     setU256ForSwitch switchLastCheckinPointer switchId lastCheckin c"

definition loadSwitchLastCheckin :: "u256 \<Rightarrow> contract \<Rightarrow> u256" where
  "loadSwitchLastCheckin switchId c = getU256ForSwitch switchLastCheckinPointer switchId c"

definition storeSwitchStatus :: "u256 \<Rightarrow> u256 \<Rightarrow> contract \<Rightarrow> contract" where
  "storeSwitchStatus switchId status c = setU256ForSwitch switchStatusPointer switchId status c"

definition loadSwitchStatus :: "u256 \<Rightarrow> contract \<Rightarrow> u256" where
  "loadSwitchStatus switchId c = getU256ForSwitch switchStatusPointer switchId c"

definition storeSwitchTriggerBlock :: "u256 \<Rightarrow> u256 \<Rightarrow> contract \<Rightarrow> contract" where
  "storeSwitchTriggerBlock switchId triggerBlock c =
     setU256ForSwitch switchTriggerBlockPointer switchId triggerBlock c"

definition loadSwitchTriggerBlock :: "u256 \<Rightarrow> contract \<Rightarrow> u256" where
  "loadSwitchTriggerBlock switchId c = getU256ForSwitch switchTriggerBlockPointer switchId c"

definition storeSwitchChunkCount :: "u256 \<Rightarrow> u256 \<Rightarrow> contract \<Rightarrow> contract" where
  "storeSwitchChunkCount switchId count c =
     setU256ForSwitch switchChunkCountPointer switchId count c"

definition loadSwitchChunkCount :: "u256 \<Rightarrow> contract \<Rightarrow> u256" where
  "loadSwitchChunkCount switchId c = getU256ForSwitch switchChunkCountPointer switchId c"

subsection \<open>Owner-to-switch tracking\<close>

definition getOwnerSwitchCount :: "Address \<Rightarrow> contract \<Rightarrow> u256" where
  "getOwnerSwitchCount owner c =
     (let subPtr = addressToSubPointer owner;
          key = encodePointer ownerSwitchCountPointer subPtr;
          slot = getStorageAt (store c) key
      in fromUint8ArrayBE slot)"

definition setOwnerSwitchCount :: "Address \<Rightarrow> u256 \<Rightarrow> contract \<Rightarrow> contract" where
  "setOwnerSwitchCount owner count c =
     (let subPtr = addressToSubPointer owner;
          key = encodePointer ownerSwitchCountPointer subPtr
      in c\<lparr>store := setStorageAt (store c) key (toUint8Array count)\<rparr>)"

definition getOwnerSwitchAtIndex :: "Address \<Rightarrow> u256 \<Rightarrow> contract \<Rightarrow> u256" where
  "getOwnerSwitchAtIndex owner index c =
     (let subPtr = addressIndexSubPointer owner index;
          key = encodePointer ownerSwitchIndexPointer subPtr;
          slot = getStorageAt (store c) key
      in fromUint8ArrayBE slot)"

definition setOwnerSwitchAtIndex :: "Address \<Rightarrow> u256 \<Rightarrow> u256 \<Rightarrow> contract \<Rightarrow> contract" where
  "setOwnerSwitchAtIndex owner index switchId c =
     (let subPtr = addressIndexSubPointer owner index;
          key = encodePointer ownerSwitchIndexPointer subPtr
      in c\<lparr>store := setStorageAt (store c) key (toUint8Array switchId)\<rparr>)"

definition addSwitchToOwner :: "Address \<Rightarrow> u256 \<Rightarrow> contract \<Rightarrow> error + contract" where
  "addSwitchToOwner owner switchId c =
     (let currentCount = getOwnerSwitchCount owner c;
          c = setOwnerSwitchAtIndex owner currentCount switchId c
      in case SafeMath_add currentCount 1 of
           Inl err \<Rightarrow> Inl err
         | Inr n \<Rightarrow> Inr (setOwnerSwitchCount owner n c))"

subsection \<open>Validation helpers\<close>

text \<open>Each helper returns the error it throws, if any.\<close>

definition ensureSwitchExists :: "u256 \<Rightarrow> contract \<Rightarrow> error option" where
  "ensureSwitchExists switchId c =
     (let nextId = nextSwitchId_value c
      in if switchId = 0 \<or> switchId \<ge> nextId then Some (Revert ''Switch does not exist'')
         else None)"

definition ensureOwner :: "env \<Rightarrow> u256 \<Rightarrow> contract \<Rightarrow> error option" where
  "ensureOwner e switchId c =
     (let owner = loadSwitchOwner switchId c
      in if \<not> (sender e = owner) then Some (Revert ''Only owner can call this method'')
         else None)"

definition ensureActive :: "u256 \<Rightarrow> contract \<Rightarrow> error option" where
  "ensureActive switchId c =
     (let currentStatus = loadSwitchStatus switchId c
      in if \<not> (currentStatus = STATUS_ACTIVE) then Some (Revert ''Switch is not active'')
         else None)"

subsection \<open>Public operations\<close>

text \<open>What a call writes to its \<open>BytesWriter\<close>.\<close>

datatype retval =
    RBool bool
  | RU256 u256
  | RBytes bytes
  | RSwitch Address Address u256 u256 u256 u256 u256 u256
  | RSwitchIds u256 "u256 list"

type_synonym result = "error + (retval \<times> contract)"

definition createSwitch :: "env \<Rightarrow> Address \<Rightarrow> u256 \<Rightarrow> u256 \<Rightarrow> contract \<Rightarrow> result" where
  "createSwitch e beneficiary interval gracePeriod c =
     (if beneficiary = 0 then Inl (Revert ''Beneficiary cannot be zero address'')
      else if interval = 0 then Inl (Revert ''Heartbeat interval must be greater than zero'')
      else if gracePeriod = 0 then Inl (Revert ''Grace period must be greater than zero'')
      else
        (let switchId = nextSwitchId_value c;
             txSender = sender e;
             currentBlock = blockNumber e;
             c = storeSwitchOwner switchId txSender c;
             c = storeSwitchBeneficiary switchId beneficiary c;
             c = storeSwitchInterval switchId interval c;
             c = storeSwitchGracePeriod switchId gracePeriod c;
             c = storeSwitchLastCheckin switchId currentBlock c;
             c = storeSwitchStatus switchId STATUS_ACTIVE c;
             c = storeSwitchTriggerBlock switchId 0 c;
             c = storeSwitchChunkCount switchId 0 c
         in case addSwitchToOwner txSender switchId c of
              Inl err \<Rightarrow> Inl err
            | Inr c \<Rightarrow>
               (case SafeMath_add switchId 1 of
                  Inl err \<Rightarrow> Inl err
                | Inr n \<Rightarrow>
                   (let c = set_nextSwitchId_value n c;
                        c = emitEvent (SwitchCreatedEvent switchId txSender beneficiary) c
                    in Inr (RU256 switchId, c)))))"

definition checkin :: "env \<Rightarrow> u256 \<Rightarrow> contract \<Rightarrow> result" where
  "checkin e switchId c =
     (case ensureSwitchExists switchId c of Some err \<Rightarrow> Inl err | None \<Rightarrow>
      case ensureOwner e switchId c of Some err \<Rightarrow> Inl err | None \<Rightarrow>
      case ensureActive switchId c of Some err \<Rightarrow> Inl err | None \<Rightarrow>
        (let currentBlock = blockNumber e;
             c = storeSwitchLastCheckin switchId currentBlock c;
             c = emitEvent (CheckedInEvent switchId currentBlock) c
         in Inr (RBool True, c)))"

definition storeData :: "env \<Rightarrow> u256 \<Rightarrow> u256 \<Rightarrow> bytes \<Rightarrow> contract \<Rightarrow> result" where
  "storeData e switchId chunkIndex encryptedData c =
     (case ensureSwitchExists switchId c of Some err \<Rightarrow> Inl err | None \<Rightarrow>
      case ensureOwner e switchId c of Some err \<Rightarrow> Inl err | None \<Rightarrow>
      case ensureActive switchId c of Some err \<Rightarrow> Inl err | None \<Rightarrow>
        if length encryptedData = 0 then Inl (Revert ''Data cannot be empty'')
        else
          (let subPtr = compoundSubPointer switchId chunkIndex
           in case storeMultiSlotBytes switchDataChunksPointer subPtr encryptedData (store c) of
                Inl err \<Rightarrow> Inl err
              | Inr st \<Rightarrow>
                 (let c = c\<lparr>store := st\<rparr>;
                      currentCount = loadSwitchChunkCount switchId c
                  in case SafeMath_add chunkIndex 1 of
                       Inl err \<Rightarrow> Inl err
                     | Inr indexPlusOne \<Rightarrow>
                        (let c = (if indexPlusOne > currentCount
                                  then storeSwitchChunkCount switchId indexPlusOne c else c);
                             c = emitEvent (DataStoredEvent switchId chunkIndex) c
                         in Inr (RBool True, c)))))"

definition storeDecryptionKey :: "env \<Rightarrow> u256 \<Rightarrow> bytes \<Rightarrow> contract \<Rightarrow> result" where
  "storeDecryptionKey e switchId encryptedKey c =
     (case ensureSwitchExists switchId c of Some err \<Rightarrow> Inl err | None \<Rightarrow>
      case ensureOwner e switchId c of Some err \<Rightarrow> Inl err | None \<Rightarrow>
      case ensureActive switchId c of Some err \<Rightarrow> Inl err | None \<Rightarrow>
        if length encryptedKey = 0 then Inl (Revert ''Encrypted key cannot be empty'')
        else
          (let subPtr = u256ToSubPointer switchId
           in case storeMultiSlotBytes switchEncryptedKeyPointer subPtr encryptedKey (store c) of
                Inl err \<Rightarrow> Inl err
              | Inr st \<Rightarrow> Inr (RBool True, c\<lparr>store := st\<rparr>)))"

definition trigger :: "env \<Rightarrow> u256 \<Rightarrow> contract \<Rightarrow> result" where
  "trigger e switchId c =
     (case ensureSwitchExists switchId c of Some err \<Rightarrow> Inl err | None \<Rightarrow>
        (let currentStatus = loadSwitchStatus switchId c
         in if currentStatus = STATUS_TRIGGERED then Inl (Revert ''Switch already triggered'')
            else if currentStatus = STATUS_CANCELLED then Inl (Revert ''Switch has been cancelled'')
            else
              (let currentBlock = blockNumber e;
                   lastCheck = loadSwitchLastCheckin switchId c;
                   interval = loadSwitchInterval switchId c
               in case SafeMath_add lastCheck interval of
                    Inl err \<Rightarrow> Inl err
                  | Inr deadline \<Rightarrow>
                     if currentBlock \<le> deadline then Inl (Revert ''Heartbeat has not expired yet'')
                     else
                       (let c = storeSwitchStatus switchId STATUS_TRIGGERED c;
                            c = storeSwitchTriggerBlock switchId currentBlock c;
                            beneficiary = loadSwitchBeneficiary switchId c;
                            c = emitEvent (SwitchTriggeredEvent switchId beneficiary currentBlock) c
                        in Inr (RBool True, c)))))"

definition cancel :: "env \<Rightarrow> u256 \<Rightarrow> contract \<Rightarrow> result" where
  "cancel e switchId c =
     (case ensureSwitchExists switchId c of Some err \<Rightarrow> Inl err | None \<Rightarrow>
      case ensureOwner e switchId c of Some err \<Rightarrow> Inl err | None \<Rightarrow>
        (let currentStatus = loadSwitchStatus switchId c
         in if \<not> (currentStatus = STATUS_TRIGGERED) then Inl (Revert ''Switch is not triggered'')
            else
              (let currentBlock = blockNumber e;
                   trigBlock = loadSwitchTriggerBlock switchId c;
                   grace = loadSwitchGracePeriod switchId c
               in case SafeMath_add trigBlock grace of
                    Inl err \<Rightarrow> Inl err
                  | Inr graceDeadline \<Rightarrow>
                     if currentBlock > graceDeadline then Inl (Revert ''Grace period has expired'')
                     else
                       (let c = storeSwitchStatus switchId STATUS_ACTIVE c;
                            c = storeSwitchLastCheckin switchId currentBlock c;
                            c = storeSwitchTriggerBlock switchId 0 c;
                            c = emitEvent (SwitchCancelledEvent switchId currentBlock) c
                        in Inr (RBool True, c)))))"

definition updateBeneficiary :: "env \<Rightarrow> u256 \<Rightarrow> Address \<Rightarrow> contract \<Rightarrow> result" where
  "updateBeneficiary e switchId newBeneficiary c =
     (case ensureSwitchExists switchId c of Some err \<Rightarrow> Inl err | None \<Rightarrow>
      case ensureOwner e switchId c of Some err \<Rightarrow> Inl err | None \<Rightarrow>
      case ensureActive switchId c of Some err \<Rightarrow> Inl err | None \<Rightarrow>
        if newBeneficiary = 0 then Inl (Revert ''Beneficiary cannot be zero address'')
        else
          (let c = storeSwitchBeneficiary switchId newBeneficiary c;
               c = emitEvent (BeneficiaryUpdatedEvent switchId newBeneficiary) c
           in Inr (RBool True, c)))"

definition updateInterval :: "env \<Rightarrow> u256 \<Rightarrow> u256 \<Rightarrow> contract \<Rightarrow> result" where
  "updateInterval e switchId newInterval c =
     (case ensureSwitchExists switchId c of Some err \<Rightarrow> Inl err | None \<Rightarrow>
      case ensureOwner e switchId c of Some err \<Rightarrow> Inl err | None \<Rightarrow>
      case ensureActive switchId c of Some err \<Rightarrow> Inl err | None \<Rightarrow>
        if newInterval = 0 then Inl (Revert ''Interval must be greater than zero'')
        else Inr (RBool True, storeSwitchInterval switchId newInterval c))"

definition getSwitch :: "u256 \<Rightarrow> contract \<Rightarrow> result" where
  "getSwitch switchId c =
     (case ensureSwitchExists switchId c of Some err \<Rightarrow> Inl err | None \<Rightarrow>
        (let owner = loadSwitchOwner switchId c;
             beneficiary = loadSwitchBeneficiary switchId c;
             interval = loadSwitchInterval switchId c;
             gracePeriod = loadSwitchGracePeriod switchId c;
             lastCheckin = loadSwitchLastCheckin switchId c;
             status = loadSwitchStatus switchId c;
             triggerBlock = loadSwitchTriggerBlock switchId c;
             chunkCount = loadSwitchChunkCount switchId c
         in Inr (RSwitch owner beneficiary interval gracePeriod lastCheckin status triggerBlock
                   chunkCount, c)))"

definition getData :: "u256 \<Rightarrow> u256 \<Rightarrow> contract \<Rightarrow> result" where
  "getData switchId chunkIndex c =
     (case ensureSwitchExists switchId c of Some err \<Rightarrow> Inl err | None \<Rightarrow>
        (let count = loadSwitchChunkCount switchId c
         in if chunkIndex \<ge> count then Inl (Revert ''Chunk index out of bounds'')
            else
              (let subPtr = compoundSubPointer switchId chunkIndex
               in case loadMultiSlotBytes switchDataChunksPointer subPtr (store c) of
                    Inl err \<Rightarrow> Inl err
                  | Inr data \<Rightarrow> Inr (RBytes data, c))))"

definition getDecryptionKey :: "u256 \<Rightarrow> contract \<Rightarrow> result" where
  "getDecryptionKey switchId c =
     (case ensureSwitchExists switchId c of Some err \<Rightarrow> Inl err | None \<Rightarrow>
        (let currentStatus = loadSwitchStatus switchId c
         in if \<not> (currentStatus = STATUS_TRIGGERED) then Inl (Revert ''Switch has not been triggered'')
            else
              (let subPtr = u256ToSubPointer switchId
               in case loadMultiSlotBytes switchEncryptedKeyPointer subPtr (store c) of
                    Inl err \<Rightarrow> Inl err
                  | Inr key \<Rightarrow> Inr (RBytes key, c))))"

definition getSwitchCount :: "contract \<Rightarrow> result" where
  "getSwitchCount c =
     (let nextId = nextSwitchId_value c
      in case SafeMath_sub nextId 1 of
           Inl err \<Rightarrow> Inl err
         | Inr count \<Rightarrow> Inr (RU256 count, c))"

definition isExpired :: "env \<Rightarrow> u256 \<Rightarrow> contract \<Rightarrow> result" where
  "isExpired e switchId c =
     (case ensureSwitchExists switchId c of Some err \<Rightarrow> Inl err | None \<Rightarrow>
        (let currentBlock = blockNumber e;
             lastCheck = loadSwitchLastCheckin switchId c;
             interval = loadSwitchInterval switchId c
         in case SafeMath_add lastCheck interval of
              Inl err \<Rightarrow> Inl err
            | Inr deadline \<Rightarrow>
               (let expired = (currentBlock > deadline) in Inr (RBool expired, c))))"

definition getSwitchesByOwner :: "Address \<Rightarrow> contract \<Rightarrow> result" where
  "getSwitchesByOwner owner c =
     (let count = getOwnerSwitchCount owner c;
          MAX_RETURN = (100 :: u256);
          returnCount = (if count > MAX_RETURN then MAX_RETURN else count);
          returnCountU32 = unat (ucast returnCount :: u32)
      in Inr (RSwitchIds count
                (map (\<lambda>i. getOwnerSwitchAtIndex owner (of_nat i) c) [0..<returnCountU32]), c))"

subsection \<open>Transactions\<close>

datatype call =
    CreateSwitch Address u256 u256
  | Checkin u256
  | StoreData u256 u256 bytes
  | StoreDecryptionKey u256 bytes
  | Trigger u256
  | Cancel u256
  | UpdateBeneficiary u256 Address
  | UpdateInterval u256 u256
  | GetSwitch u256
  | GetData u256 u256
  | GetDecryptionKey u256
  | GetSwitchCount
  | IsExpired u256
  | GetSwitchesByOwner Address

fun execute :: "env \<Rightarrow> call \<Rightarrow> contract \<Rightarrow> result" where
  "execute e (CreateSwitch beneficiary interval gracePeriod) c =
     createSwitch e beneficiary interval gracePeriod c"
| "execute e (Checkin switchId) c = checkin e switchId c"
| "execute e (StoreData switchId chunkIndex encryptedData) c =
     storeData e switchId chunkIndex encryptedData c"
| "execute e (StoreDecryptionKey switchId encryptedKey) c =
     storeDecryptionKey e switchId encryptedKey c"
| "execute e (Trigger switchId) c = trigger e switchId c"
| "execute e (Cancel switchId) c = cancel e switchId c"
| "execute e (UpdateBeneficiary switchId newBeneficiary) c =
     updateBeneficiary e switchId newBeneficiary c"
| "execute e (UpdateInterval switchId newInterval) c = updateInterval e switchId newInterval c"
| "execute e (GetSwitch switchId) c = getSwitch switchId c"
| "execute e (GetData switchId chunkIndex) c = getData switchId chunkIndex c"
| "execute e (GetDecryptionKey switchId) c = getDecryptionKey switchId c"
| "execute e GetSwitchCount c = getSwitchCount c"
| "execute e (IsExpired switchId) c = isExpired e switchId c"
| "execute e (GetSwitchesByOwner owner) c = getSwitchesByOwner owner c"

text \<open>
  A transaction either commits or aborts with no effect: a call that fails leaves the
  state as it was.
\<close>

definition step :: "env \<Rightarrow> call \<Rightarrow> contract \<Rightarrow> contract" where
  "step e cl c = (case execute e cl c of Inl err \<Rightarrow> c | Inr (r, c') \<Rightarrow> c')"

fun run :: "(env \<times> call) list \<Rightarrow> contract \<Rightarrow> contract" where
  "run [] c = c"
| "run ((e, cl) # rest) c = run rest (step e cl c)"

text \<open>The contract right after deployment: an empty store, the counter set to 1.\<close>

definition deployed :: contract where
  "deployed = onDeployment \<lparr>store = Map.empty, events = []\<rparr>"

section \<open>Auxiliary notions of the proofs\<close>

text \<open>The 32 bytes that \<open>storeMultiSlotBytes\<close> writes for the data from \<open>off\<close> on.\<close>

definition slot_chunk :: "bytes \<Rightarrow> nat \<Rightarrow> bytes" where
  "slot_chunk data off = copy_bytes (new_Uint8Array 32) 0 data off (min 32 (length data - off))"

text \<open>The two pointer bytes of a key, read as a big-endian number.\<close>

definition pointer_prefix :: "u16 \<Rightarrow> nat" where
  "pointer_prefix p = be_to_nat [ucast (p AND 0xff), ucast (drop_bit 8 p AND 0xff)]"


text \<open>What a call returns to its caller: the error, or the value written.\<close>

definition outcome :: "result \<Rightarrow> error + retval" where
  "outcome r = (case r of Inl err \<Rightarrow> Inl err | Inr (v, c) \<Rightarrow> Inr v)"

text \<open>Concrete states for the examples: one switch created at block 100, then triggered.\<close>

definition env0 :: env where
  "env0 = \<lparr>sender = 7, blockNumber = 100\<rparr>"

definition sample :: contract where
  "sample = step env0 (CreateSwitch 9 10 5) deployed"

definition triggered_sample :: contract where
  "triggered_sample = step \<lparr>sender = 3, blockNumber = 111\<rparr> (Trigger 1) sample"

definition overflow_sample :: contract where
  "overflow_sample =
     run [(env0, CreateSwitch 9 1 (- 1)), (\<lparr>sender = 3, blockNumber = 102\<rparr>, Trigger 1)] deployed"

text \<open>The sample switch after its owner stored chunk 2 only.\<close>

definition hole_sample :: contract where
  "hole_sample = step env0 (StoreData 1 2 [1, 2, 3]) sample"

text \<open>Invariants of the states reached from deployment.\<close>

definition status_inv :: "contract \<Rightarrow> bool" where
  "status_inv c \<longleftrightarrow>
     (\<forall>i. loadSwitchStatus i c = STATUS_ACTIVE \<or> loadSwitchStatus i c = STATUS_TRIGGERED)"

definition fresh_inv :: "contract \<Rightarrow> bool" where
  "fresh_inv c \<longleftrightarrow>
     1 \<le> unat (nextSwitchId_value c) \<and> unat (nextSwitchId_value c) \<le> 2 ^ 240 \<and>
     (\<forall>i. unat (nextSwitchId_value c) \<le> unat i \<and> unat i < 2 ^ 240 \<longrightarrow>
          loadSwitchStatus i c = STATUS_ACTIVE \<and> loadSwitchChunkCount i c = 0)"

text \<open>
  A sequence of \<open>storeData\<close> calls, each with its own caller, block, record, chunk index
  and payload, and the chunk indices of those among them that succeed on record \<open>i\<close>.
\<close>

fun successful_chunks ::
  "u256 \<Rightarrow> (env \<times> u256 \<times> u256 \<times> bytes) list \<Rightarrow> contract \<Rightarrow> u256 list" where
  "successful_chunks i [] c = []"
| "successful_chunks i ((e, j, idx, d) # rest) c =
     (case storeData e j idx d c of
        Inl err \<Rightarrow> successful_chunks i rest c
      | Inr (r, c') \<Rightarrow> (if j = i then [idx] else []) @ successful_chunks i rest c')"

definition storeData_calls :: "(env \<times> u256 \<times> u256 \<times> bytes) list \<Rightarrow> (env \<times> call) list" where
  "storeData_calls stores = map (\<lambda>(e, j, idx, d). (e, StoreData j idx d)) stores"

text \<open>
  A second switch, created by another account; its owner stores chunk 1, then the owner of
  the first switch stores chunk 2.
\<close>

definition two_sample :: contract where
  "two_sample = step \<lparr>sender = 8, blockNumber = 100\<rparr> (CreateSwitch 9 10 5) sample"

definition stored_sample :: contract where
  "stored_sample = step \<lparr>sender = 8, blockNumber = 101\<rparr> (StoreData 2 1 [9, 9]) two_sample"

definition collision_sample :: contract where
  "collision_sample = step \<lparr>sender = 7, blockNumber = 102\<rparr> (StoreData 1 2 [1, 2, 3]) stored_sample"


section \<open>Bytes and big-endian numbers\<close>

lemma length_copy_bytes [simp]: "length (copy_bytes dst d src s n) = length dst"
  by (induction n) auto

lemma copy_bytes_nth:
  "i < length dst \<Longrightarrow>
   copy_bytes dst d src s n ! i = (if d \<le> i \<and> i < d + n then src ! (s + (i - d)) else dst ! i)"
  by (induction n) (auto simp: nth_list_update less_Suc_eq)

lemma byte_mask_u32: "(0xff :: u32) = mask 8"
  by (simp add: mask_eq_exp_minus_1)

text \<open>Decoding the four length bytes of slot 0 gives the length back.\<close>

lemma length_bytes_decode: "push_bit 24 (ucast (ucast (drop_bit 24 w AND 0xff :: u32) :: u8) :: u32)
   OR push_bit 16 (ucast (ucast (drop_bit 16 w AND 0xff :: u32) :: u8) :: u32)
   OR push_bit 8 (ucast (ucast (drop_bit 8 w AND 0xff :: u32) :: u8) :: u32)
   OR (ucast (ucast (w AND 0xff :: u32) :: u8) :: u32) = w"
  unfolding byte_mask_u32
proof (rule bit_word_eqI)
  fix n :: nat
  assume n: "n < LENGTH(32)"
  consider "n < 8" | "8 \<le> n" "n < 16" | "16 \<le> n" "n < 24" | "24 \<le> n" "n < 32"
    using n by fastforce
  then show "bit (push_bit 24 (ucast (ucast (drop_bit 24 w AND mask 8 :: u32) :: u8) :: u32)
   OR push_bit 16 (ucast (ucast (drop_bit 16 w AND mask 8 :: u32) :: u8) :: u32)
   OR push_bit 8 (ucast (ucast (drop_bit 8 w AND mask 8 :: u32) :: u8) :: u32)
   OR (ucast (ucast (w AND mask 8 :: u32) :: u8) :: u32)) n = bit w n"
  proof cases
    case 1 then show ?thesis by (auto simp add: bit_simps)
  next
    case 2 then show ?thesis by (auto simp add: bit_simps)
  next
    case 3 then show ?thesis by (auto simp add: bit_simps)
  next
    case 4 then show ?thesis by (auto simp add: bit_simps)
  qed
qed

lemma len_nat_to_be[simp]: "length (nat_to_be n v) = n"
  by (induction n arbitrary: v) auto

lemma be_to_nat_snoc: "be_to_nat (xs @ [x]) = be_to_nat xs * 256 + unat x"
  by (simp add: be_to_nat_def)

lemma be_to_nat_Nil [simp]: "be_to_nat [] = 0"
  by (simp add: be_to_nat_def)

lemma unat_u8_less: "unat (x :: u8) < 256"
  using unsigned_less [of x] by simp

lemma be_to_nat_app: "be_to_nat (a @ b) = be_to_nat a * 256 ^ length b + be_to_nat b"
proof (induction b rule: rev_induct)
  case Nil show ?case by simp
next
  case (snoc x xs)
  have "be_to_nat (a @ xs @ [x]) = be_to_nat (a @ xs) * 256 + unat x"
    using be_to_nat_snoc [of "a @ xs" x] by simp
  then show ?case by (simp add: snoc be_to_nat_snoc algebra_simps)
qed

lemma be_to_nat_nat_to_be: "be_to_nat (nat_to_be n v) = v mod 256 ^ n"
proof (induction n arbitrary: v)
  case 0 show ?case by simp
next
  case (Suc n)
  have "be_to_nat (nat_to_be (Suc n) v) = be_to_nat (nat_to_be n (v div 256)) * 256 + v mod 256"
    by (simp add: be_to_nat_snoc unat_of_nat)
  also have "\<dots> = (v div 256) mod 256 ^ n * 256 + v mod 256"
    by (simp add: Suc)
  also have "\<dots> = v mod 256 ^ Suc n"
    by (simp add: mod_mult2_eq)
  finally show ?case .
qed

lemma be_to_nat_bound: "be_to_nat bs < 256 ^ length bs"
proof (induction bs rule: rev_induct)
  case Nil show ?case by simp
next
  case (snoc x xs)
  then show ?case using unat_u8_less [of x] by (simp add: be_to_nat_snoc)
qed

lemma nat_to_be_be_to_nat: "length bs = n \<Longrightarrow> nat_to_be n (be_to_nat bs) = bs"
proof (induction bs arbitrary: n rule: rev_induct)
  case Nil then show ?case by simp
next
  case (snoc x xs)
  then obtain m where n: "n = Suc m" and m: "length xs = m" by (cases n) auto
  show ?case using snoc.IH[OF m] unat_u8_less [of x] by (simp add: n be_to_nat_snoc)
qed

lemma mod_add_cancel_nat:
  fixes b i j M :: nat
  assumes "(b + i) mod M = (b + j) mod M" "i < M" "j < M"
  shows "i = j"
proof -
  have aux: "x = y" if "(b + x) mod M = (b + y) mod M" "x \<le> y" "y < M" for x y
  proof -
    have "M dvd (b + y) - (b + x)"
      using that by (metis add_le_cancel_left mod_eq_dvd_iff_nat)
    then have "M dvd y - x" by simp
    moreover have "y - x < M" using that by simp
    ultimately have "y - x = 0" by (meson dvd_imp_le less_le_not_le not_gr_zero)
    then show ?thesis using that by simp
  qed
  show ?thesis
  proof (cases "i \<le> j")
    case True then show ?thesis using aux [of i j] assms by simp
  next
    case False then show ?thesis using aux [of j i] assms by simp
  qed
qed

lemma bigEndianAdd_inj:
  assumes "bigEndianAdd base i = bigEndianAdd base j" "i < 2 ^ 256" "j < 2 ^ 256"
  shows "i = j"
proof -
  have "be_to_nat (bigEndianAdd base i) = be_to_nat (bigEndianAdd base j)"
    using assms by simp
  then have "(be_to_nat base + i) mod 256 ^ 32 = (be_to_nat base + j) mod 256 ^ 32"
    by (simp only: bigEndianAdd_def be_to_nat_nat_to_be)
  moreover have "(256::nat) ^ 32 = 2 ^ 256" by simp
  ultimately show ?thesis using assms mod_add_cancel_nat by metis
qed

lemma bigEndianAdd_zero: "length base = 32 \<Longrightarrow> bigEndianAdd base 0 = base"
  by (simp add: bigEndianAdd_def nat_to_be_be_to_nat)

lemma length_bigEndianAdd [simp]: "length (bigEndianAdd base i) = 32"
  by (simp add: bigEndianAdd_def)

lemma bigEndianAdd_neq_base:
  assumes "0 < j" "j < 2 ^ 256"
  shows "bigEndianAdd base j \<noteq> base"
proof (cases "length base = 32")
  case True
  then have "base = bigEndianAdd base 0" by (simp add: bigEndianAdd_zero)
  then show ?thesis using bigEndianAdd_inj [of base j 0] assms by auto
next
  case False
  then show ?thesis using length_bigEndianAdd [of base j] by metis
qed

section \<open>The multi-slot byte store\<close>

lemma store_slots_unfold:
  "store_slots base data off idx st =
     (if off < length data
      then store_slots base data (off + 32) (idx + 1) (st(bigEndianAdd base idx \<mapsto> slot_chunk data off))
      else st)"
  by (subst store_slots.simps) (simp add: Let_def slot_chunk_def setStorageAt_def min_def)

lemma store_slots_other:
  "(\<And>j. idx \<le> j \<Longrightarrow> off + 32 * (j - idx) < length data \<Longrightarrow> k \<noteq> bigEndianAdd base j) \<Longrightarrow>
   store_slots base data off idx st k = st k"
proof (induction "length data - off" arbitrary: off idx st rule: less_induct)
  case less
  show ?case
  proof (cases "off < length data")
    case False
    then show ?thesis by (subst store_slots_unfold) simp
  next
    case True
    have d: "length data - (off + 32) < length data - off" using True by simp
    have k0: "k \<noteq> bigEndianAdd base idx" using less.prems [of idx] True by simp
    have "store_slots base data (off + 32) (idx + 1) (st(bigEndianAdd base idx \<mapsto> slot_chunk data off)) k
          = (st(bigEndianAdd base idx \<mapsto> slot_chunk data off)) k"
    proof (rule less.hyps [OF d])
      fix j assume j: "idx + 1 \<le> j" "off + 32 + 32 * (j - (idx + 1)) < length data"
      then have "off + 32 * (j - idx) < length data" by simp
      then show "k \<noteq> bigEndianAdd base j" using less.prems [of j] j by simp
    qed
    then show ?thesis using True k0 by (subst store_slots_unfold) simp
  qed
qed

lemma store_slots_at:
  "off + 32 * m < length data \<Longrightarrow> idx + (length data - off) < 2 ^ 256 \<Longrightarrow>
   store_slots base data off idx st (bigEndianAdd base (idx + m)) = Some (slot_chunk data (off + 32 * m))"
proof (induction m arbitrary: off idx st)
  case 0
  then have lt: "off < length data" by simp
  have "store_slots base data (off + 32) (idx + 1) (st(bigEndianAdd base idx \<mapsto> slot_chunk data off))
          (bigEndianAdd base idx)
        = (st(bigEndianAdd base idx \<mapsto> slot_chunk data off)) (bigEndianAdd base idx)"
  proof (rule store_slots_other)
    fix j assume j: "idx + 1 \<le> j" "off + 32 + 32 * (j - (idx + 1)) < length data"
    then have "j < 2 ^ 256" using 0 by simp
    moreover have "idx < 2 ^ 256" using 0 by simp
    moreover have "idx \<noteq> j" using j by simp
    ultimately show "bigEndianAdd base idx \<noteq> bigEndianAdd base j"
      using bigEndianAdd_inj [of base idx j] by blast
  qed
  then show ?case using lt by (subst store_slots_unfold) simp
next
  case (Suc m)
  have lt: "off < length data" using Suc.prems by simp
  have a: "off + 32 + 32 * m < length data" using Suc.prems by simp
  have b: "idx + 1 + (length data - (off + 32)) < 2 ^ 256" using Suc.prems by simp
  show ?case
    using Suc.IH [OF a b] lt by (subst store_slots_unfold) (simp add: add.assoc)
qed

lemma load_slots_unfold:
  "load_slots base st len off idx result =
     (if off < len
      then load_slots base st len (off + 32) (idx + 1)
             (copy_bytes result off (getStorageAt st (bigEndianAdd base idx)) 0 (min 32 (len - off)))
      else result)"
  by (subst load_slots.simps) (simp add: Let_def min_def)

lemma length_load_slots [simp]: "length (load_slots base st len off idx result) = length result"
proof (induction "len - off" arbitrary: off idx result rule: less_induct)
  case less
  show ?case
  proof (cases "off < len")
    case False then show ?thesis by (subst load_slots_unfold) simp
  next
    case True
    have d: "len - (off + 32) < len - off" using True by simp
    show ?thesis using less.hyps [OF d] True by (subst load_slots_unfold) simp
  qed
qed

lemma load_slots_nth:
  "length result = len \<Longrightarrow> i < len \<Longrightarrow>
   load_slots base st len off idx result ! i =
     (if off \<le> i then getStorageAt st (bigEndianAdd base (idx + (i - off) div 32)) ! ((i - off) mod 32)
      else result ! i)"
proof (induction "len - off" arbitrary: off idx result rule: less_induct)
  case less
  show ?case
  proof (cases "off < len")
    case False then show ?thesis using less.prems by (subst load_slots_unfold) simp
  next
    case True
    have d: "len - (off + 32) < len - off" using True by simp
    let ?r = "copy_bytes result off (getStorageAt st (bigEndianAdd base idx)) 0 (min 32 (len - off))"
    have lr: "length ?r = len" using less.prems by simp
    have step: "load_slots base st len off idx result ! i = load_slots base st len (off + 32) (idx + 1) ?r ! i"
      using True by (subst load_slots_unfold) simp
    have ih: "load_slots base st len (off + 32) (idx + 1) ?r ! i =
      (if off + 32 \<le> i
       then getStorageAt st (bigEndianAdd base (idx + 1 + (i - (off + 32)) div 32)) ! ((i - (off + 32)) mod 32)
       else ?r ! i)"
      by (rule less.hyps [OF d lr less.prems(2)])
    show ?thesis
    proof (cases "off + 32 \<le> i")
      case True
      then have "(i - off) div 32 = Suc ((i - (off + 32)) div 32)"
        and "(i - off) mod 32 = (i - (off + 32)) mod 32"
        by (simp_all add: le_div_geq le_mod_geq)
      then show ?thesis using True step ih by simp
    next
      case False
      then show ?thesis using step ih less.prems
        by (auto simp: copy_bytes_nth)
    qed
  qed
qed

lemma slot_chunk_nth:
  "off + r < length data \<Longrightarrow> r < 32 \<Longrightarrow> slot_chunk data off ! r = data ! (off + r)"
  by (auto simp add: slot_chunk_def new_Uint8Array_def copy_bytes_nth)

lemma unat_of_nat_u32: "n < 2 ^ 32 \<Longrightarrow> unat (of_nat n :: u32) = n"
  by (simp add: unat_of_nat take_bit_nat_eq_self)

lemma loadMultiSlotBytes_eq:
  assumes "getStorageAt st (encodePointer p s) = slot0"
    and "push_bit 24 (ucast (slot0 ! 0) :: u32) OR push_bit 16 (ucast (slot0 ! 1) :: u32)
             OR push_bit 8 (ucast (slot0 ! 2) :: u32) OR (ucast (slot0 ! 3) :: u32) = w"
  shows "loadMultiSlotBytes p s st =
    (if w = 0 then Inr []
     else if unat w > BLOCK_MAXSIZE then Inl (RangeError ''Invalid length'')
     else Inr (load_slots (encodePointer p s) st (unat w) 28 1
            (copy_bytes (new_Uint8Array (unat w)) 0 slot0 4 (if unat w < 28 then unat w else 28))))"
  unfolding loadMultiSlotBytes_def Let_def assms by (simp add: new_Uint8Array_def)

lemma store_then_load:
  fixes st :: storage
  assumes len: "length d \<le> 8188"
    and base: "base = encodePointer p s"
    and w: "w = (of_nat (length d) :: u32)"
    and hdr: "hdr = (new_Uint8Array 32)
                    [0 := ucast (drop_bit 24 w AND 0xff),
                     1 := ucast (drop_bit 16 w AND 0xff),
                     2 := ucast (drop_bit 8 w AND 0xff),
                     3 := ucast (w AND 0xff)]"
    and fcs: "fcs = (if length d < 28 then length d else 28)"
    and slot0: "slot0 = copy_bytes hdr 4 d 0 fcs"
    and st': "st' = store_slots base d 28 1 (st(base \<mapsto> slot0))"
  shows "loadMultiSlotBytes p s st' = Inr d"
proof -
  have small: "j < 2 ^ 256" if "28 + 32 * (j - 1) < length d" for j :: nat
  proof -
    have "j < 8189" using that len by simp
    also have "(8189 :: nat) < 2 ^ 256" by simp
    finally show ?thesis .
  qed
  have "st' base = (st(base \<mapsto> slot0)) base"
    unfolding st'
  proof (rule store_slots_other)
    fix j :: nat assume "1 \<le> j" "28 + 32 * (j - 1) < length d"
    then show "base \<noteq> bigEndianAdd base j"
      using bigEndianAdd_neq_base [of j base] small [of j] by auto
  qed
  then have g0: "getStorageAt st' (encodePointer p s) = slot0"
    by (simp add: getStorageAt_def base)
  have lh: "length hdr = 32" by (simp add: hdr new_Uint8Array_def)
  have h: "slot0 ! 0 = ucast (drop_bit 24 w AND 0xff)"
          "slot0 ! 1 = ucast (drop_bit 16 w AND 0xff)"
          "slot0 ! 2 = ucast (drop_bit 8 w AND 0xff)"
          "slot0 ! 3 = ucast (w AND 0xff)"
    by (simp_all add: slot0 copy_bytes_nth lh) (simp_all add: hdr new_Uint8Array_def)
  have dec: "push_bit 24 (ucast (slot0 ! 0) :: u32) OR push_bit 16 (ucast (slot0 ! 1) :: u32)
             OR push_bit 8 (ucast (slot0 ! 2) :: u32) OR (ucast (slot0 ! 3) :: u32) = w"
    unfolding h by (rule length_bytes_decode)
  have un: "unat w = length d"
    unfolding w using len by (intro unat_of_nat_u32) simp
  note ld = loadMultiSlotBytes_eq [OF g0 dec]
  show ?thesis
  proof (cases "length d = 0")
    case True
    then have "w = 0" by (simp add: w)
    then show ?thesis using True ld by simp
  next
    case False
    then have nz: "w \<noteq> 0" using un by (metis unat_0)
    have nb: "\<not> unat w > BLOCK_MAXSIZE" using len un by (simp add: BLOCK_MAXSIZE_def)
    define r0 where "r0 = copy_bytes (new_Uint8Array (length d)) 0 slot0 4 fcs"
    have res: "loadMultiSlotBytes p s st' = Inr (load_slots base st' (length d) 28 1 r0)"
      using ld nz nb by (simp add: un r0_def fcs base)
    have lr0: "length r0 = length d" by (simp add: r0_def new_Uint8Array_def)
    have "load_slots base st' (length d) 28 1 r0 = d"
    proof (rule nth_equalityI)
      show "length (load_slots base st' (length d) 28 1 r0) = length d"
        by (simp add: lr0)
    next
      fix i assume "i < length (load_slots base st' (length d) 28 1 r0)"
      then have i: "i < length d" by (simp add: lr0)
      show "load_slots base st' (length d) 28 1 r0 ! i = d ! i"
      proof (cases "28 \<le> i")
        case False
        then have "load_slots base st' (length d) 28 1 r0 ! i = r0 ! i"
          using load_slots_nth [OF lr0 i] by simp
        also have "\<dots> = slot0 ! (4 + i)"
          using False i by (simp add: r0_def fcs copy_bytes_nth new_Uint8Array_def)
        also have "\<dots> = d ! i"
          using False i by (simp add: slot0 fcs copy_bytes_nth lh)
        finally show ?thesis .
      next
        case True
        define m where "m = (i - 28) div 32"
        define r where "r = (i - 28) mod 32"
        have ieq: "i = 28 + 32 * m + r" using True by (simp add: m_def r_def)
        have r32: "r < 32" by (simp add: r_def)
        have a: "28 + 32 * m < length d" using i ieq by simp
        have b: "1 + (length d - 28) < (2::nat) ^ 256"
        proof -
          have "1 + (length d - 28) < 8189" using len by simp
          also have "(8189 :: nat) < 2 ^ 256" by simp
          finally show ?thesis .
        qed
        have "load_slots base st' (length d) 28 1 r0 ! i
              = getStorageAt st' (bigEndianAdd base (1 + m)) ! r"
          using load_slots_nth [OF lr0 i] True by (simp add: m_def r_def)
        also have "\<dots> = slot_chunk d (28 + 32 * m) ! r"
          unfolding st' using store_slots_at [OF a b] by (simp add: getStorageAt_def)
        also have "\<dots> = d ! i"
          using slot_chunk_nth [of "28 + 32 * m" r d] i ieq r32 by simp
        finally show ?thesis .
      qed
    qed
    then show ?thesis using res by simp
  qed
qed

lemma storeMultiSlotBytes_ok:
  "length d \<le> 8188 \<Longrightarrow> \<exists>st'. storeMultiSlotBytes p s d st = Inr st'"
  by (simp add: storeMultiSlotBytes_def MAX_BYTE_SLOTS_def Let_def)

section \<open>Storage keys\<close>

lemma nat_to_be_add: "nat_to_be (m + n) x = nat_to_be m (x div 256 ^ n) @ nat_to_be n x"
proof (induction n arbitrary: x)
  case 0 show ?case by simp
next
  case (Suc n)
  have "nat_to_be (m + Suc n) x = nat_to_be (m + n) (x div 256) @ [of_nat (x mod 256)]"
    by simp
  also have "\<dots> = nat_to_be m (x div 256 div 256 ^ n) @ nat_to_be n (x div 256) @ [of_nat (x mod 256)]"
    by (simp add: Suc)
  also have "x div 256 div 256 ^ n = x div 256 ^ Suc n"
    by (simp add: div_mult2_eq)
  finally show ?case by simp
qed

lemma copy_bytes_whole:
  "s + n \<le> length src \<Longrightarrow> copy_bytes (new_Uint8Array n) 0 src s n = take n (drop s src)"
  by (rule nth_equalityI) (simp_all add: new_Uint8Array_def copy_bytes_nth)

lemma u256ToSubPointer_eq: "u256ToSubPointer v = nat_to_be 30 (unat v)"
proof -
  have "nat_to_be 32 (unat v) = nat_to_be 2 (unat v div 256 ^ 30) @ nat_to_be 30 (unat v)"
    using nat_to_be_add [of 2 30 "unat v"] by simp
  then have "take 30 (drop 2 (nat_to_be 32 (unat v))) = nat_to_be 30 (unat v)"
    by simp
  then show ?thesis
    by (simp add: u256ToSubPointer_def toUint8Array_def Let_def copy_bytes_whole)
qed

lemma addressToSubPointer_eq: "addressToSubPointer a = u256ToSubPointer a"
  by (simp add: addressToSubPointer_def u256ToSubPointer_def Let_def)

lemma length_u256ToSubPointer [simp]: "length (u256ToSubPointer v) = 30"
  by (simp add: u256ToSubPointer_eq)

lemma length_xor_bytes [simp]: "length (xor_bytes r a b n) = length r"
  by (induction n) auto

lemma length_compoundSubPointer [simp]: "length (compoundSubPointer a b) = 30"
  by (simp add: compoundSubPointer_def Let_def new_Uint8Array_def)

lemma length_addressIndexSubPointer [simp]: "length (addressIndexSubPointer a b) = 30"
  by (simp add: addressIndexSubPointer_def Let_def new_Uint8Array_def)

lemma u256ToSubPointer_inj:
  assumes "u256ToSubPointer a = u256ToSubPointer b" "unat a < 2 ^ 240" "unat b < 2 ^ 240"
  shows "a = b"
proof -
  have "be_to_nat (nat_to_be 30 (unat a)) = be_to_nat (nat_to_be 30 (unat b))"
    using assms(1) by (simp add: u256ToSubPointer_eq)
  then have "unat a mod 256 ^ 30 = unat b mod 256 ^ 30"
    by (simp only: be_to_nat_nat_to_be)
  moreover have "(256::nat) ^ 30 = 2 ^ 240" by simp
  ultimately have "unat a = unat b" using assms(2,3) by simp
  then show ?thesis by (simp add: word_unat_eq_iff)
qed

lemma fromUint8ArrayBE_toUint8Array [simp]: "fromUint8ArrayBE (toUint8Array v) = v"
proof -
  have "unat v < 256 ^ 32" using unsigned_less [of v, where 'a = nat] by simp
  then show ?thesis
    by (simp add: fromUint8ArrayBE_def toUint8Array_def be_to_nat_nat_to_be)
qed

lemma fromUint8ArrayBE_zero [simp]: "fromUint8ArrayBE (new_Uint8Array n) = 0"
proof -
  have "be_to_nat (replicate n 0 @ bs) = be_to_nat bs" for bs
    by (induction n) (simp_all add: be_to_nat_def)
  from this [of "[]"] have "be_to_nat (replicate n 0) = 0" by simp
  then show ?thesis by (simp add: fromUint8ArrayBE_def new_Uint8Array_def)
qed

lemma pointer_bytes_inj:
  fixes p q :: u16
  assumes "(ucast (p AND 0xff) :: u8) = ucast (q AND 0xff)"
    and "(ucast (drop_bit 8 p AND 0xff) :: u8) = ucast (drop_bit 8 q AND 0xff)"
  shows "p = q"
proof (rule bit_word_eqI)
  fix n :: nat assume n: "n < LENGTH(16)"
  have m: "(0xff :: u16) = mask 8" by (simp add: mask_eq_exp_minus_1)
  show "bit p n = bit q n"
  proof (cases "n < 8")
    case True
    have "bit (ucast (p AND 0xff) :: u8) n = bit (ucast (q AND 0xff) :: u8) n"
      using assms(1) by simp
    then show ?thesis using True unfolding m by (simp add: bit_simps)
  next
    case False
    then have k: "n - 8 < 8" "8 + (n - 8) = n" using n by auto
    have "bit (ucast (drop_bit 8 p AND 0xff) :: u8) (n - 8) = bit (ucast (drop_bit 8 q AND 0xff) :: u8) (n - 8)"
      using assms(2) by simp
    then show ?thesis using k unfolding m by (simp add: bit_simps)
  qed
qed

lemma encodePointer_eq_iff [simp]:
  "encodePointer p s = encodePointer q s' \<longleftrightarrow> p = q \<and> s = s'"
  using pointer_bytes_inj [of p q] by (auto simp: encodePointer_def)

lemma getStorageAt_setStorageAt:
  "getStorageAt (setStorageAt st k v) k' = (if k' = k then v else getStorageAt st k')"
  by (simp add: getStorageAt_def setStorageAt_def)

lemma be_to_nat_encodePointer:
  "length s = 30 \<Longrightarrow> be_to_nat (encodePointer p s) = pointer_prefix p * 2 ^ 240 + be_to_nat s"
  using be_to_nat_app [of "[ucast (p AND 0xff), ucast (drop_bit 8 p AND 0xff)]" s]
  by (simp add: encodePointer_def pointer_prefix_def)

lemma pointer_prefix_bound: "pointer_prefix p < 65536"
  using be_to_nat_bound [of "[ucast (p AND 0xff), ucast (drop_bit 8 p AND 0xff)]"]
  by (simp add: pointer_prefix_def)

lemma multi_slot_key_above:
  assumes pq: "pointer_prefix q < pointer_prefix p" and pp: "pointer_prefix p < 65534"
    and ls: "length s = 30" and ls': "length s' = 30" and j: "j < 2 ^ 240"
  shows "bigEndianAdd (encodePointer p s) j \<noteq> encodePointer q s'"
proof
  assume eq: "bigEndianAdd (encodePointer p s) j = encodePointer q s'"
  define M :: nat where "M = 2 ^ 240"
  define x where "x = pointer_prefix p * M + be_to_nat s + j"
  have sb: "be_to_nat s < M" "be_to_nat s' < M"
    using be_to_nat_bound [of s] be_to_nat_bound [of s'] ls ls' by (simp_all add: M_def)
  have jM: "j < M" using j by (simp add: M_def)
  have "be_to_nat (bigEndianAdd (encodePointer p s) j) = be_to_nat (encodePointer q s')"
    using eq by simp
  then have e: "x mod 256 ^ 32 = pointer_prefix q * M + be_to_nat s'"
    by (simp only: bigEndianAdd_def be_to_nat_nat_to_be be_to_nat_encodePointer [OF ls]
        be_to_nat_encodePointer [OF ls'] x_def M_def)
  have low: "pointer_prefix q * M + be_to_nat s' < (pointer_prefix q + 1) * M"
    using sb by (simp add: algebra_simps)
  have "(pointer_prefix q + 1) * M \<le> pointer_prefix p * M"
    using pq by (intro mult_le_mono1) simp
  then have lt: "pointer_prefix q * M + be_to_nat s' < x"
    using low by (simp add: x_def)
  have "x < (pointer_prefix p + 2) * M"
    using sb jM by (simp add: x_def algebra_simps)
  also have "\<dots> \<le> 65536 * M"
    using pp by (intro mult_le_mono1) simp
  also have "\<dots> = 256 ^ 32" by (simp add: M_def)
  finally have "x mod 256 ^ 32 = x" by simp
  then show False using e lt by simp
qed


lemma store_frame:
  assumes ok: "storeMultiSlotBytes p s d st = Inr st'"
    and k0: "k \<noteq> encodePointer p s"
    and kj: "\<And>j. j < 256 \<Longrightarrow> k \<noteq> bigEndianAdd (encodePointer p s) j"
  shows "st' k = st k"
proof -
  have len: "length d \<le> 8188"
    using ok by (simp add: storeMultiSlotBytes_def MAX_BYTE_SLOTS_def Let_def split: if_splits)
  have "\<exists>slot0. st' = store_slots (encodePointer p s) d 28 1 (st(encodePointer p s \<mapsto> slot0))"
    using ok len by (auto simp add: storeMultiSlotBytes_def MAX_BYTE_SLOTS_def Let_def setStorageAt_def)
  then obtain slot0 where st': "st' = store_slots (encodePointer p s) d 28 1 (st(encodePointer p s \<mapsto> slot0))"
    by blast
  have "st' k = (st(encodePointer p s \<mapsto> slot0)) k"
    unfolding st'
  proof (rule store_slots_other)
    fix j :: nat assume "1 \<le> j" "28 + 32 * (j - 1) < length d"
    then have "j < 256" using len by simp
    then show "k \<noteq> bigEndianAdd (encodePointer p s) j" by (rule kj)
  qed
  then show ?thesis using k0 by simp
qed

lemma pointer_prefix_numeral [simp]:
  "pointer_prefix 0 = 0" "pointer_prefix 1 = 256" "pointer_prefix 2 = 512" "pointer_prefix 3 = 768"
  "pointer_prefix 4 = 1024" "pointer_prefix 5 = 1280" "pointer_prefix 6 = 1536"
  "pointer_prefix 7 = 1792" "pointer_prefix 8 = 2048" "pointer_prefix 9 = 2304"
  "pointer_prefix 10 = 2560" "pointer_prefix 11 = 2816" "pointer_prefix 12 = 3072"
  by (simp_all add: pointer_prefix_def be_to_nat_def)

text \<open>A multi-slot write under the pointers 9 and 10 leaves the slots of lower pointers alone.\<close>

lemma store_frame_scalar:
  assumes ok: "storeMultiSlotBytes p s d st = Inr st'"
    and pq: "pointer_prefix q < pointer_prefix p" and pp: "pointer_prefix p < 65534"
    and ls: "length s = 30" and ls': "length s' = 30"
  shows "getStorageAt st' (encodePointer q s') = getStorageAt st (encodePointer q s')"
proof -
  have "st' (encodePointer q s') = st (encodePointer q s')"
  proof (rule store_frame [OF ok])
    show "encodePointer q s' \<noteq> encodePointer p s" using pq by auto
  next
    fix j :: nat assume "j < 256"
    then have "j < 2 ^ 240" by (rule less_trans) simp
    then show "encodePointer q s' \<noteq> bigEndianAdd (encodePointer p s) j"
      using multi_slot_key_above [OF pq pp ls ls', of j] by simp
  qed
  then show ?thesis by (simp add: getStorageAt_def)
qed

section \<open>Reading and writing the fields of a record\<close>

lemma SafeMath_add_eq:
  "SafeMath_add a b =
     (if unat a + unat b < 2 ^ 256 then Inr (a + b) else Inl (Revert ''SafeMath: addition overflow''))"
  using no_olen_add_nat [of a b] by (auto simp: SafeMath_add_def Let_def not_le)

lemma unat_add_no_overflow:
  fixes a b :: u256
  shows "unat a + unat b < 2 ^ 256 \<Longrightarrow> unat (a + b) = unat a + unat b"
  using unat_add_lem [of a b] by simp

lemma getAddressForSwitch_eq: "getAddressForSwitch = getU256ForSwitch"
  by (intro ext) (simp add: getAddressForSwitch_def getU256ForSwitch_def)

lemma setAddressForSwitch_eq: "setAddressForSwitch = setU256ForSwitch"
  by (intro ext) (simp add: setAddressForSwitch_def setU256ForSwitch_def)

lemma nat_to_be_zero: "nat_to_be n 0 = replicate n 0"
  by (induction n) (simp_all add: replicate_append_same)

lemma EMPTY_POINTER_eq: "EMPTY_POINTER = u256ToSubPointer 0"
  by (simp add: EMPTY_POINTER_def u256ToSubPointer_eq new_Uint8Array_def nat_to_be_zero)

lemma nextSwitchId_value_eq: "nextSwitchId_value c = getU256ForSwitch nextSwitchIdPointer 0 c"
  by (simp add: nextSwitchId_value_def getU256ForSwitch_def EMPTY_POINTER_eq)

lemma set_nextSwitchId_value_eq:
  "set_nextSwitchId_value v c = setU256ForSwitch nextSwitchIdPointer 0 v c"
  by (simp add: set_nextSwitchId_value_def setU256ForSwitch_def EMPTY_POINTER_eq)

lemma getOwnerSwitchCount_eq: "getOwnerSwitchCount owner c = getU256ForSwitch ownerSwitchCountPointer owner c"
  by (simp add: getOwnerSwitchCount_def getU256ForSwitch_def addressToSubPointer_eq)

lemma setOwnerSwitchCount_eq:
  "setOwnerSwitchCount owner n c = setU256ForSwitch ownerSwitchCountPointer owner n c"
  by (simp add: setOwnerSwitchCount_def setU256ForSwitch_def addressToSubPointer_eq)

lemma get_set_U256:
  "getU256ForSwitch p i (setU256ForSwitch q j v c) =
     (if p = q \<and> u256ToSubPointer i = u256ToSubPointer j then v else getU256ForSwitch p i c)"
  by (simp add: getU256ForSwitch_def setU256ForSwitch_def getStorageAt_setStorageAt Let_def)

lemma get_emitEvent [simp]: "getU256ForSwitch p i (emitEvent ev c) = getU256ForSwitch p i c"
  by (simp add: getU256ForSwitch_def emitEvent_def)

lemma get_setOwnerSwitchAtIndex:
  "getU256ForSwitch p i (setOwnerSwitchAtIndex owner idx v c) =
     (if p = ownerSwitchIndexPointer \<and> u256ToSubPointer i = addressIndexSubPointer owner idx then v
      else getU256ForSwitch p i c)"
  by (simp add: getU256ForSwitch_def setOwnerSwitchAtIndex_def getStorageAt_setStorageAt Let_def)

lemmas pointer_defs =
  nextSwitchIdPointer_def switchOwnerPointer_def switchBeneficiaryPointer_def
  switchIntervalPointer_def switchGracePeriodPointer_def switchLastCheckinPointer_def
  switchStatusPointer_def switchTriggerBlockPointer_def switchChunkCountPointer_def
  switchEncryptedKeyPointer_def switchDataChunksPointer_def ownerSwitchCountPointer_def
  ownerSwitchIndexPointer_def

lemmas field_defs =
  storeSwitchOwner_def loadSwitchOwner_def storeSwitchBeneficiary_def loadSwitchBeneficiary_def
  storeSwitchInterval_def loadSwitchInterval_def storeSwitchGracePeriod_def
  loadSwitchGracePeriod_def storeSwitchLastCheckin_def loadSwitchLastCheckin_def
  storeSwitchStatus_def loadSwitchStatus_def storeSwitchTriggerBlock_def
  loadSwitchTriggerBlock_def storeSwitchChunkCount_def loadSwitchChunkCount_def
  getAddressForSwitch_eq setAddressForSwitch_eq nextSwitchId_value_eq set_nextSwitchId_value_eq
  getOwnerSwitchCount_eq setOwnerSwitchCount_eq

lemmas status_defs = STATUS_ACTIVE_def STATUS_TRIGGERED_def STATUS_CANCELLED_def

lemma ensureSwitchExists_None:
  "ensureSwitchExists switchId c = None \<longleftrightarrow> switchId \<noteq> 0 \<and> switchId < nextSwitchId_value c"
  by (auto simp: ensureSwitchExists_def Let_def)

lemma ensureSwitchExists_Some:
  "ensureSwitchExists switchId c = Some err \<longleftrightarrow>
     (switchId = 0 \<or> nextSwitchId_value c \<le> switchId) \<and> err = Revert ''Switch does not exist''"
  by (auto simp: ensureSwitchExists_def Let_def)

section \<open>The operations as explicit case distinctions\<close>

lemma trigger_eq:
  "trigger e switchId c =
     (if switchId = 0 \<or> nextSwitchId_value c \<le> switchId then Inl (Revert ''Switch does not exist'')
      else if loadSwitchStatus switchId c = STATUS_TRIGGERED then Inl (Revert ''Switch already triggered'')
      else if loadSwitchStatus switchId c = STATUS_CANCELLED then Inl (Revert ''Switch has been cancelled'')
      else if \<not> unat (loadSwitchLastCheckin switchId c) + unat (loadSwitchInterval switchId c) < 2 ^ 256
        then Inl (Revert ''SafeMath: addition overflow'')
      else if unat (blockNumber e) \<le> unat (loadSwitchLastCheckin switchId c) + unat (loadSwitchInterval switchId c)
        then Inl (Revert ''Heartbeat has not expired yet'')
      else Inr (RBool True,
             emitEvent (SwitchTriggeredEvent switchId (loadSwitchBeneficiary switchId c) (blockNumber e))
               (storeSwitchTriggerBlock switchId (blockNumber e)
                 (storeSwitchStatus switchId STATUS_TRIGGERED c))))"
  by (simp add: trigger_def ensureSwitchExists_def Let_def SafeMath_add_eq word_le_nat_alt
      unat_add_no_overflow not_less field_defs get_set_U256 pointer_defs)

lemma cancel_eq:
  "cancel e switchId c =
     (if switchId = 0 \<or> nextSwitchId_value c \<le> switchId then Inl (Revert ''Switch does not exist'')
      else if sender e \<noteq> loadSwitchOwner switchId c then Inl (Revert ''Only owner can call this method'')
      else if loadSwitchStatus switchId c \<noteq> STATUS_TRIGGERED then Inl (Revert ''Switch is not triggered'')
      else if \<not> unat (loadSwitchTriggerBlock switchId c) + unat (loadSwitchGracePeriod switchId c) < 2 ^ 256
        then Inl (Revert ''SafeMath: addition overflow'')
      else if unat (blockNumber e) > unat (loadSwitchTriggerBlock switchId c) + unat (loadSwitchGracePeriod switchId c)
        then Inl (Revert ''Grace period has expired'')
      else Inr (RBool True,
             emitEvent (SwitchCancelledEvent switchId (blockNumber e))
               (storeSwitchTriggerBlock switchId 0
                 (storeSwitchLastCheckin switchId (blockNumber e)
                   (storeSwitchStatus switchId STATUS_ACTIVE c)))))"
  by (simp add: cancel_def ensureSwitchExists_def ensureOwner_def Let_def SafeMath_add_eq
      word_less_nat_alt unat_add_no_overflow not_less)

lemma isExpired_eq:
  "isExpired e switchId c =
     (if switchId = 0 \<or> nextSwitchId_value c \<le> switchId then Inl (Revert ''Switch does not exist'')
      else if \<not> unat (loadSwitchLastCheckin switchId c) + unat (loadSwitchInterval switchId c) < 2 ^ 256
        then Inl (Revert ''SafeMath: addition overflow'')
      else Inr (RBool (unat (blockNumber e) >
                  unat (loadSwitchLastCheckin switchId c) + unat (loadSwitchInterval switchId c)), c))"
  by (simp add: isExpired_def ensureSwitchExists_def Let_def SafeMath_add_eq
      word_less_nat_alt unat_add_no_overflow not_less)

lemma checkin_eq:
  "checkin e switchId c =
     (if switchId = 0 \<or> nextSwitchId_value c \<le> switchId then Inl (Revert ''Switch does not exist'')
      else if sender e \<noteq> loadSwitchOwner switchId c then Inl (Revert ''Only owner can call this method'')
      else if loadSwitchStatus switchId c \<noteq> STATUS_ACTIVE then Inl (Revert ''Switch is not active'')
      else Inr (RBool True,
             emitEvent (CheckedInEvent switchId (blockNumber e))
               (storeSwitchLastCheckin switchId (blockNumber e) c)))"
  by (simp add: checkin_def ensureSwitchExists_def ensureOwner_def ensureActive_def Let_def)

lemma updateBeneficiary_eq:
  "updateBeneficiary e switchId newBeneficiary c =
     (if switchId = 0 \<or> nextSwitchId_value c \<le> switchId then Inl (Revert ''Switch does not exist'')
      else if sender e \<noteq> loadSwitchOwner switchId c then Inl (Revert ''Only owner can call this method'')
      else if loadSwitchStatus switchId c \<noteq> STATUS_ACTIVE then Inl (Revert ''Switch is not active'')
      else if newBeneficiary = 0 then Inl (Revert ''Beneficiary cannot be zero address'')
      else Inr (RBool True,
             emitEvent (BeneficiaryUpdatedEvent switchId newBeneficiary)
               (storeSwitchBeneficiary switchId newBeneficiary c)))"
  by (simp add: updateBeneficiary_def ensureSwitchExists_def ensureOwner_def ensureActive_def Let_def)

lemma updateInterval_eq:
  "updateInterval e switchId newInterval c =
     (if switchId = 0 \<or> nextSwitchId_value c \<le> switchId then Inl (Revert ''Switch does not exist'')
      else if sender e \<noteq> loadSwitchOwner switchId c then Inl (Revert ''Only owner can call this method'')
      else if loadSwitchStatus switchId c \<noteq> STATUS_ACTIVE then Inl (Revert ''Switch is not active'')
      else if newInterval = 0 then Inl (Revert ''Interval must be greater than zero'')
      else Inr (RBool True, storeSwitchInterval switchId newInterval c))"
  by (simp add: updateInterval_def ensureSwitchExists_def ensureOwner_def ensureActive_def Let_def)

lemma get_store_frame:
  assumes "storeMultiSlotBytes p s d (store c) = Inr st"
    and "pointer_prefix q < pointer_prefix p" "pointer_prefix p < 65534" "length s = 30"
  shows "getU256ForSwitch q i (c\<lparr>store := st\<rparr>) = getU256ForSwitch q i c"
  using store_frame_scalar [OF assms, of "u256ToSubPointer i"]
  by (simp add: getU256ForSwitch_def Let_def)

lemma storeMultiSlotBytes_cases:
  "storeMultiSlotBytes p s d st = Inl err \<longleftrightarrow>
     length d > 8188 \<and> err = Revert ''Data exceeds maximum storage capacity''"
  by (auto simp: storeMultiSlotBytes_def MAX_BYTE_SLOTS_def Let_def)

lemma storeData_eq:
  "storeData e switchId chunkIndex d c =
     (if switchId = 0 \<or> nextSwitchId_value c \<le> switchId then Inl (Revert ''Switch does not exist'')
      else if sender e \<noteq> loadSwitchOwner switchId c then Inl (Revert ''Only owner can call this method'')
      else if loadSwitchStatus switchId c \<noteq> STATUS_ACTIVE then Inl (Revert ''Switch is not active'')
      else if length d = 0 then Inl (Revert ''Data cannot be empty'')
      else case storeMultiSlotBytes switchDataChunksPointer (compoundSubPointer switchId chunkIndex) d (store c) of
             Inl err \<Rightarrow> Inl err
           | Inr st \<Rightarrow>
              if \<not> unat chunkIndex + 1 < 2 ^ 256 then Inl (Revert ''SafeMath: addition overflow'')
              else Inr (RBool True,
                     emitEvent (DataStoredEvent switchId chunkIndex)
                       (if loadSwitchChunkCount switchId c < chunkIndex + 1
                        then storeSwitchChunkCount switchId (chunkIndex + 1) (c\<lparr>store := st\<rparr>)
                        else c\<lparr>store := st\<rparr>)))"
proof -
  have fr: "loadSwitchChunkCount switchId (c\<lparr>store := st\<rparr>) = loadSwitchChunkCount switchId c"
    if "storeMultiSlotBytes switchDataChunksPointer (compoundSubPointer switchId chunkIndex) d (store c) = Inr st"
    for st
    using get_store_frame [OF that, of switchChunkCountPointer]
    by (simp add: loadSwitchChunkCount_def pointer_defs)
  show ?thesis
    by (simp add: storeData_def ensureSwitchExists_def ensureOwner_def ensureActive_def Let_def
        SafeMath_add_eq fr split: sum.splits)
qed

lemma storeDecryptionKey_eq:
  "storeDecryptionKey e switchId k c =
     (if switchId = 0 \<or> nextSwitchId_value c \<le> switchId then Inl (Revert ''Switch does not exist'')
      else if sender e \<noteq> loadSwitchOwner switchId c then Inl (Revert ''Only owner can call this method'')
      else if loadSwitchStatus switchId c \<noteq> STATUS_ACTIVE then Inl (Revert ''Switch is not active'')
      else if length k = 0 then Inl (Revert ''Encrypted key cannot be empty'')
      else case storeMultiSlotBytes switchEncryptedKeyPointer (u256ToSubPointer switchId) k (store c) of
             Inl err \<Rightarrow> Inl err
           | Inr st \<Rightarrow> Inr (RBool True, c\<lparr>store := st\<rparr>))"
  by (simp add: storeDecryptionKey_def ensureSwitchExists_def ensureOwner_def ensureActive_def Let_def)

lemma getSwitch_eq:
  "getSwitch switchId c =
     (if switchId = 0 \<or> nextSwitchId_value c \<le> switchId then Inl (Revert ''Switch does not exist'')
      else Inr (RSwitch (loadSwitchOwner switchId c) (loadSwitchBeneficiary switchId c)
                  (loadSwitchInterval switchId c) (loadSwitchGracePeriod switchId c)
                  (loadSwitchLastCheckin switchId c) (loadSwitchStatus switchId c)
                  (loadSwitchTriggerBlock switchId c) (loadSwitchChunkCount switchId c), c))"
  by (simp add: getSwitch_def ensureSwitchExists_def Let_def)

lemma getData_eq:
  "getData switchId chunkIndex c =
     (if switchId = 0 \<or> nextSwitchId_value c \<le> switchId then Inl (Revert ''Switch does not exist'')
      else if loadSwitchChunkCount switchId c \<le> chunkIndex then Inl (Revert ''Chunk index out of bounds'')
      else case loadMultiSlotBytes switchDataChunksPointer (compoundSubPointer switchId chunkIndex) (store c) of
             Inl err \<Rightarrow> Inl err
           | Inr data \<Rightarrow> Inr (RBytes data, c))"
  by (simp add: getData_def ensureSwitchExists_def Let_def)

lemma getDecryptionKey_eq:
  "getDecryptionKey switchId c =
     (if switchId = 0 \<or> nextSwitchId_value c \<le> switchId then Inl (Revert ''Switch does not exist'')
      else if loadSwitchStatus switchId c \<noteq> STATUS_TRIGGERED then Inl (Revert ''Switch has not been triggered'')
      else case loadMultiSlotBytes switchEncryptedKeyPointer (u256ToSubPointer switchId) (store c) of
             Inl err \<Rightarrow> Inl err
           | Inr key \<Rightarrow> Inr (RBytes key, c))"
  by (simp add: getDecryptionKey_def ensureSwitchExists_def Let_def)

lemma createSwitch_eq:
  "createSwitch e beneficiary interval gracePeriod c =
     (if beneficiary = 0 then Inl (Revert ''Beneficiary cannot be zero address'')
      else if interval = 0 then Inl (Revert ''Heartbeat interval must be greater than zero'')
      else if gracePeriod = 0 then Inl (Revert ''Grace period must be greater than zero'')
      else if \<not> unat (getOwnerSwitchCount (sender e) c) + 1 < 2 ^ 256
        then Inl (Revert ''SafeMath: addition overflow'')
      else if \<not> unat (nextSwitchId_value c) + 1 < 2 ^ 256
        then Inl (Revert ''SafeMath: addition overflow'')
      else Inr (RU256 (nextSwitchId_value c),
        emitEvent (SwitchCreatedEvent (nextSwitchId_value c) (sender e) beneficiary)
         (set_nextSwitchId_value (nextSwitchId_value c + 1)
          (setOwnerSwitchCount (sender e) (getOwnerSwitchCount (sender e) c + 1)
           (setOwnerSwitchAtIndex (sender e) (getOwnerSwitchCount (sender e) c) (nextSwitchId_value c)
            (storeSwitchChunkCount (nextSwitchId_value c) 0
             (storeSwitchTriggerBlock (nextSwitchId_value c) 0
              (storeSwitchStatus (nextSwitchId_value c) STATUS_ACTIVE
               (storeSwitchLastCheckin (nextSwitchId_value c) (blockNumber e)
                (storeSwitchGracePeriod (nextSwitchId_value c) gracePeriod
                 (storeSwitchInterval (nextSwitchId_value c) interval
                  (storeSwitchBeneficiary (nextSwitchId_value c) beneficiary
                   (storeSwitchOwner (nextSwitchId_value c) (sender e) c)))))))))))))"
  by (simp add: createSwitch_def addSwitchToOwner_def Let_def SafeMath_add_eq
      field_defs get_set_U256 pointer_defs)

section \<open>Some concrete states\<close>

lemma get_empty [simp]: "getU256ForSwitch p i \<lparr>store = Map.empty, events = evs\<rparr> = 0"
  by (simp add: getU256ForSwitch_def getStorageAt_def Let_def)

lemma deployed_fields [simp]:
  "getU256ForSwitch p i deployed = (if p = nextSwitchIdPointer \<and> u256ToSubPointer i = u256ToSubPointer 0 then 1 else 0)"
  by (simp add: deployed_def onDeployment_def field_defs get_set_U256)

lemma sample_eq:
  "sample = emitEvent (SwitchCreatedEvent 1 7 9)
         (set_nextSwitchId_value 2
          (setOwnerSwitchCount 7 1
           (setOwnerSwitchAtIndex 7 0 1
            (storeSwitchChunkCount 1 0
             (storeSwitchTriggerBlock 1 0
              (storeSwitchStatus 1 STATUS_ACTIVE
               (storeSwitchLastCheckin 1 100
                (storeSwitchGracePeriod 1 5
                 (storeSwitchInterval 1 10
                  (storeSwitchBeneficiary 1 9
                   (storeSwitchOwner 1 7 deployed)))))))))))"
  by (simp add: sample_def step_def createSwitch_eq env0_def field_defs pointer_defs)

lemma sample_facts:
  "nextSwitchId_value sample = 2"
  "loadSwitchOwner 1 sample = 7"
  "loadSwitchStatus 1 sample = 0"
  "loadSwitchLastCheckin 1 sample = 100"
  "loadSwitchInterval 1 sample = 10"
  "loadSwitchGracePeriod 1 sample = 5"
  "loadSwitchTriggerBlock 1 sample = 0"
  "loadSwitchChunkCount 1 sample = 0"
  by (simp_all add: sample_eq field_defs get_set_U256 get_setOwnerSwitchAtIndex pointer_defs status_defs)

lemma unat_lt_u256: "unat (x :: u256) < 2 ^ 256"
  using unsigned_less [of x, where 'a = nat] by simp

lemma not_two_le_one [simp]: "\<not> (2 :: u256) \<le> 1"
  by (simp add: word_le_nat_alt)

lemma unat_max_u256 [simp]:
  "unat (- 1 :: u256) = 115792089237316195423570985008687907853269984665640564039457584007913129639935"
  by (simp add: unsigned_minus_1_eq_mask mask_eq_exp_minus_1)

lemma triggered_sample_eq:
  "triggered_sample = emitEvent (SwitchTriggeredEvent 1 9 111)
               (storeSwitchTriggerBlock 1 111 (storeSwitchStatus 1 STATUS_TRIGGERED sample))"
  by (simp add: triggered_sample_def step_def trigger_eq sample_facts status_defs)
     (simp add: sample_eq field_defs get_set_U256 get_setOwnerSwitchAtIndex pointer_defs)

lemma triggered_sample_facts:
  "nextSwitchId_value triggered_sample = 2"
  "loadSwitchOwner 1 triggered_sample = 7"
  "loadSwitchStatus 1 triggered_sample = 1"
  "loadSwitchLastCheckin 1 triggered_sample = 100"
  "loadSwitchInterval 1 triggered_sample = 10"
  "loadSwitchGracePeriod 1 triggered_sample = 5"
  "loadSwitchTriggerBlock 1 triggered_sample = 111"
  using sample_facts
  by (simp_all add: triggered_sample_eq field_defs get_set_U256 pointer_defs status_defs)

lemma overflow_sample_facts:
  "nextSwitchId_value overflow_sample = 2"
  "loadSwitchOwner 1 overflow_sample = 7"
  "loadSwitchStatus 1 overflow_sample = 1"
  "loadSwitchGracePeriod 1 overflow_sample = - 1"
  "loadSwitchTriggerBlock 1 overflow_sample = 102"
  by (simp_all add: overflow_sample_def step_def createSwitch_eq trigger_eq env0_def field_defs
      get_set_U256 get_setOwnerSwitchAtIndex pointer_defs status_defs)


lemma store_frame_exact:
  assumes ok: "storeMultiSlotBytes p s d st = Inr st'"
    and k0: "k \<noteq> encodePointer p s"
    and kj: "\<And>j. 1 \<le> j \<Longrightarrow> 28 + 32 * (j - 1) < length d \<Longrightarrow> k \<noteq> bigEndianAdd (encodePointer p s) j"
  shows "st' k = st k"
proof -
  have len: "length d \<le> 8188"
    using ok by (simp add: storeMultiSlotBytes_def MAX_BYTE_SLOTS_def Let_def split: if_splits)
  have "\<exists>slot0. st' = store_slots (encodePointer p s) d 28 1 (st(encodePointer p s \<mapsto> slot0))"
    using ok len by (auto simp add: storeMultiSlotBytes_def MAX_BYTE_SLOTS_def Let_def setStorageAt_def)
  then obtain slot0 where st': "st' = store_slots (encodePointer p s) d 28 1 (st(encodePointer p s \<mapsto> slot0))"
    by blast
  have "st' k = (st(encodePointer p s \<mapsto> slot0)) k"
    unfolding st' by (rule store_slots_other) (use kj in simp)
  then show ?thesis using k0 by simp
qed

lemma store_setU256:
  "store (setU256ForSwitch q j v c) = (store c)(encodePointer q (u256ToSubPointer j) \<mapsto> toUint8Array v)"
  by (simp add: setU256ForSwitch_def setStorageAt_def Let_def)

lemma store_setOwnerSwitchAtIndex:
  "store (setOwnerSwitchAtIndex owner idx v c) =
     (store c)(encodePointer ownerSwitchIndexPointer (addressIndexSubPointer owner idx) \<mapsto> toUint8Array v)"
  by (simp add: setOwnerSwitchAtIndex_def setStorageAt_def Let_def)

lemma store_emitEvent [simp]: "store (emitEvent ev c) = store c"
  by (simp add: emitEvent_def)

lemma store_deployed:
  "store deployed = Map.empty(encodePointer nextSwitchIdPointer (u256ToSubPointer 0) \<mapsto> toUint8Array 1)"
  by (simp add: deployed_def onDeployment_def field_defs store_setU256)

lemma sample_data_unset: "store sample (encodePointer switchDataChunksPointer s) = None"
  by (simp add: sample_eq field_defs store_setU256 store_setOwnerSwitchAtIndex store_deployed pointer_defs)

lemma compound_1_1_2: "compoundSubPointer 1 1 \<noteq> compoundSubPointer 1 2"
  by code_simp

lemma hole_sample_facts:
  "nextSwitchId_value hole_sample = 2"
  "loadSwitchChunkCount 1 hole_sample = 3"
  "store hole_sample (encodePointer switchDataChunksPointer (compoundSubPointer 1 1)) = None"
proof -
  obtain st where st: "storeMultiSlotBytes switchDataChunksPointer (compoundSubPointer 1 2) [1, 2, 3] (store sample) = Inr st"
    using storeMultiSlotBytes_ok [of "[1, 2, 3]"] by fastforce
  have h: "hole_sample = emitEvent (DataStoredEvent 1 2) (storeSwitchChunkCount 1 3 (sample\<lparr>store := st\<rparr>))"
    by (simp add: hole_sample_def step_def storeData_eq sample_facts env0_def status_defs st
        word_less_nat_alt)
  have fr: "getU256ForSwitch q i (sample\<lparr>store := st\<rparr>) = getU256ForSwitch q i sample"
    if "pointer_prefix q < 2560" for q i
    using get_store_frame [OF st, of q i] that by (simp add: pointer_defs)
  show "nextSwitchId_value hole_sample = 2"
    using sample_facts(1) by (simp add: h field_defs get_set_U256 pointer_defs fr)
  show "loadSwitchChunkCount 1 hole_sample = 3"
    by (simp add: h field_defs get_set_U256 pointer_defs)
  have "st (encodePointer switchDataChunksPointer (compoundSubPointer 1 1))
        = store sample (encodePointer switchDataChunksPointer (compoundSubPointer 1 1))"
    by (rule store_frame_exact [OF st]) (simp_all add: compound_1_1_2)
  then show "store hole_sample (encodePointer switchDataChunksPointer (compoundSubPointer 1 1)) = None"
    using sample_data_unset [of "compoundSubPointer 1 1"]
    by (simp add: h field_defs store_setU256 pointer_defs)
qed



section \<open>Effects of a call and invariants of the reachable states\<close>

lemma get_cong_sub:
  "u256ToSubPointer i = u256ToSubPointer j \<Longrightarrow> getU256ForSwitch p i c = getU256ForSwitch p j c"
  by (simp add: getU256ForSwitch_def Let_def)

lemma step_readonly [simp]:
  "step e (GetSwitch i) c = c" "step e (GetData i idx) c = c" "step e (GetDecryptionKey i) c = c"
  "step e GetSwitchCount c = c" "step e (IsExpired i) c = c" "step e (GetSwitchesByOwner a) c = c"
  by (simp_all add: step_def getSwitch_eq getData_eq getDecryptionKey_eq getSwitchCount_def
      isExpired_eq getSwitchesByOwner_def Let_def split: sum.splits)

text \<open>What a call may change among the counter, the statuses and the chunk counts.\<close>

lemma step_scalar:
  assumes q: "q = nextSwitchIdPointer \<or> q = switchStatusPointer \<or> q = switchChunkCountPointer"
    and ch: "getU256ForSwitch q i (step e cl c) \<noteq> getU256ForSwitch q i c"
  shows
   "(\<exists>j. cl = Trigger j \<and> j \<noteq> 0 \<and> j < nextSwitchId_value c \<and> q = switchStatusPointer \<and>
         u256ToSubPointer j = u256ToSubPointer i \<and>
         loadSwitchStatus j c \<noteq> STATUS_TRIGGERED \<and> loadSwitchStatus j c \<noteq> STATUS_CANCELLED \<and>
         getU256ForSwitch q i (step e cl c) = STATUS_TRIGGERED) \<or>
    (\<exists>j. cl = Cancel j \<and> j \<noteq> 0 \<and> j < nextSwitchId_value c \<and> q = switchStatusPointer \<and>
         u256ToSubPointer j = u256ToSubPointer i \<and> loadSwitchStatus j c = STATUS_TRIGGERED \<and>
         getU256ForSwitch q i (step e cl c) = STATUS_ACTIVE) \<or>
    (\<exists>j idx d. cl = StoreData j idx d \<and> j \<noteq> 0 \<and> j < nextSwitchId_value c \<and>
         q = switchChunkCountPointer \<and> u256ToSubPointer j = u256ToSubPointer i \<and>
         loadSwitchChunkCount j c < idx + 1 \<and> unat idx + 1 < 2 ^ 256 \<and>
         (\<exists>r. storeData e j idx d c = Inr r) \<and>
         getU256ForSwitch q i (step e cl c) = idx + 1) \<or>
    (\<exists>b iv g. cl = CreateSwitch b iv g \<and> unat (nextSwitchId_value c) + 1 < 2 ^ 256 \<and>
         ((q = switchStatusPointer \<and> u256ToSubPointer (nextSwitchId_value c) = u256ToSubPointer i \<and>
           getU256ForSwitch q i (step e cl c) = STATUS_ACTIVE) \<or>
          (q = switchChunkCountPointer \<and> u256ToSubPointer (nextSwitchId_value c) = u256ToSubPointer i \<and>
           getU256ForSwitch q i (step e cl c) = 0) \<or>
          (q = nextSwitchIdPointer \<and> u256ToSubPointer i = u256ToSubPointer 0 \<and>
           getU256ForSwitch q i (step e cl c) = nextSwitchId_value c + 1)))"
proof (cases cl)
  case (CreateSwitch b iv g)
  then show ?thesis using q ch
    by (auto simp add: step_def createSwitch_eq field_defs get_set_U256 get_setOwnerSwitchAtIndex
        pointer_defs split: if_splits)
next
  case (Checkin j)
  then show ?thesis using q ch
    by (auto simp add: step_def checkin_eq field_defs get_set_U256 pointer_defs split: if_splits)
next
  case (StoreData j idx d)
  have fr: "getU256ForSwitch q i (c\<lparr>store := st\<rparr>) = getU256ForSwitch q i c"
    if "storeMultiSlotBytes switchDataChunksPointer (compoundSubPointer j idx) d (store c) = Inr st" for st
    using get_store_frame [OF that, of q i] q by (auto simp add: pointer_defs)
  show ?thesis
  proof (cases "storeData e j idx d c")
    case (Inl err)
    then show ?thesis using StoreData ch by (simp add: step_def)
  next
    case (Inr r)
    then show ?thesis using StoreData q ch fr
      by (auto simp add: step_def storeData_eq field_defs get_set_U256 pointer_defs
          split: if_splits sum.splits)
  qed
next
  case (StoreDecryptionKey j k)
  have fr: "getU256ForSwitch q i (c\<lparr>store := st\<rparr>) = getU256ForSwitch q i c"
    if "storeMultiSlotBytes switchEncryptedKeyPointer (u256ToSubPointer j) k (store c) = Inr st" for st
    using get_store_frame [OF that, of q i] q by (auto simp add: pointer_defs)
  show ?thesis using StoreDecryptionKey q ch fr
    by (auto simp add: step_def storeDecryptionKey_eq split: if_splits sum.splits)
next
  case (Trigger j)
  then show ?thesis using q ch
    by (auto simp add: step_def trigger_eq field_defs get_set_U256 pointer_defs split: if_splits)
next
  case (Cancel j)
  then show ?thesis using q ch
    by (auto simp add: step_def cancel_eq field_defs get_set_U256 pointer_defs split: if_splits)
next
  case (UpdateBeneficiary j a)
  then show ?thesis using q ch
    by (auto simp add: step_def updateBeneficiary_eq field_defs get_set_U256 pointer_defs split: if_splits)
next
  case (UpdateInterval j n)
  then show ?thesis using q ch
    by (auto simp add: step_def updateInterval_eq field_defs get_set_U256 pointer_defs split: if_splits)
qed (use ch in simp_all)

lemma step_status:
  assumes "loadSwitchStatus i (step e cl c) \<noteq> loadSwitchStatus i c"
  shows
   "(\<exists>j. cl = Trigger j \<and> j \<noteq> 0 \<and> j < nextSwitchId_value c \<and>
         u256ToSubPointer j = u256ToSubPointer i \<and>
         loadSwitchStatus i c \<noteq> STATUS_TRIGGERED \<and> loadSwitchStatus i c \<noteq> STATUS_CANCELLED \<and>
         loadSwitchStatus i (step e cl c) = STATUS_TRIGGERED) \<or>
    (\<exists>j. cl = Cancel j \<and> j \<noteq> 0 \<and> j < nextSwitchId_value c \<and>
         u256ToSubPointer j = u256ToSubPointer i \<and> loadSwitchStatus i c = STATUS_TRIGGERED \<and>
         loadSwitchStatus i (step e cl c) = STATUS_ACTIVE) \<or>
    (\<exists>b iv g. cl = CreateSwitch b iv g \<and> unat (nextSwitchId_value c) + 1 < 2 ^ 256 \<and>
         u256ToSubPointer (nextSwitchId_value c) = u256ToSubPointer i \<and>
         loadSwitchStatus i (step e cl c) = STATUS_ACTIVE)"
proof -
  have ch: "getU256ForSwitch switchStatusPointer i (step e cl c) \<noteq> getU256ForSwitch switchStatusPointer i c"
    using assms by (simp add: loadSwitchStatus_def)
  have eq: "loadSwitchStatus j c = loadSwitchStatus i c" if "u256ToSubPointer j = u256ToSubPointer i" for j
    using get_cong_sub [OF that] by (simp add: loadSwitchStatus_def)
  have "(\<exists>j. cl = Trigger j \<and> j \<noteq> 0 \<and> j < nextSwitchId_value c \<and>
         u256ToSubPointer j = u256ToSubPointer i \<and>
         loadSwitchStatus j c \<noteq> STATUS_TRIGGERED \<and> loadSwitchStatus j c \<noteq> STATUS_CANCELLED \<and>
         loadSwitchStatus i (step e cl c) = STATUS_TRIGGERED) \<or>
    (\<exists>j. cl = Cancel j \<and> j \<noteq> 0 \<and> j < nextSwitchId_value c \<and>
         u256ToSubPointer j = u256ToSubPointer i \<and> loadSwitchStatus j c = STATUS_TRIGGERED \<and>
         loadSwitchStatus i (step e cl c) = STATUS_ACTIVE) \<or>
    (\<exists>b iv g. cl = CreateSwitch b iv g \<and> unat (nextSwitchId_value c) + 1 < 2 ^ 256 \<and>
         u256ToSubPointer (nextSwitchId_value c) = u256ToSubPointer i \<and>
         loadSwitchStatus i (step e cl c) = STATUS_ACTIVE)"
    using step_scalar [of switchStatusPointer i e cl c] ch
    by (simp add: loadSwitchStatus_def pointer_defs)
  then show ?thesis
  proof (elim disjE exE conjE)
    fix j assume a: "cl = Trigger j" "j \<noteq> 0" "j < nextSwitchId_value c"
      "u256ToSubPointer j = u256ToSubPointer i" "loadSwitchStatus j c \<noteq> STATUS_TRIGGERED"
      "loadSwitchStatus j c \<noteq> STATUS_CANCELLED" "loadSwitchStatus i (step e cl c) = STATUS_TRIGGERED"
    show ?thesis using a eq [OF a(4)] by simp
  next
    fix j assume a: "cl = Cancel j" "j \<noteq> 0" "j < nextSwitchId_value c"
      "u256ToSubPointer j = u256ToSubPointer i" "loadSwitchStatus j c = STATUS_TRIGGERED"
      "loadSwitchStatus i (step e cl c) = STATUS_ACTIVE"
    show ?thesis using a eq [OF a(4)] by simp
  next
    fix b iv g assume a: "cl = CreateSwitch b iv g" "unat (nextSwitchId_value c) + 1 < 2 ^ 256"
      "u256ToSubPointer (nextSwitchId_value c) = u256ToSubPointer i"
      "loadSwitchStatus i (step e cl c) = STATUS_ACTIVE"
    show ?thesis using a by simp
  qed
qed

lemma step_chunk:
  assumes "loadSwitchChunkCount i (step e cl c) \<noteq> loadSwitchChunkCount i c"
  shows
   "(\<exists>j idx d. cl = StoreData j idx d \<and> j \<noteq> 0 \<and> j < nextSwitchId_value c \<and>
         u256ToSubPointer j = u256ToSubPointer i \<and>
         loadSwitchChunkCount i c < idx + 1 \<and> unat idx + 1 < 2 ^ 256 \<and>
         (\<exists>r. storeData e j idx d c = Inr r) \<and>
         loadSwitchChunkCount i (step e cl c) = idx + 1) \<or>
    (\<exists>b iv g. cl = CreateSwitch b iv g \<and> unat (nextSwitchId_value c) + 1 < 2 ^ 256 \<and>
         u256ToSubPointer (nextSwitchId_value c) = u256ToSubPointer i \<and>
         loadSwitchChunkCount i (step e cl c) = 0)"
proof -
  have ch: "getU256ForSwitch switchChunkCountPointer i (step e cl c) \<noteq> getU256ForSwitch switchChunkCountPointer i c"
    using assms by (simp add: loadSwitchChunkCount_def)
  have eq: "loadSwitchChunkCount j c = loadSwitchChunkCount i c" if "u256ToSubPointer j = u256ToSubPointer i" for j
    using get_cong_sub [OF that] by (simp add: loadSwitchChunkCount_def)
  have "(\<exists>j idx d. cl = StoreData j idx d \<and> j \<noteq> 0 \<and> j < nextSwitchId_value c \<and>
         u256ToSubPointer j = u256ToSubPointer i \<and>
         loadSwitchChunkCount j c < idx + 1 \<and> unat idx + 1 < 2 ^ 256 \<and>
         (\<exists>r. storeData e j idx d c = Inr r) \<and>
         loadSwitchChunkCount i (step e cl c) = idx + 1) \<or>
    (\<exists>b iv g. cl = CreateSwitch b iv g \<and> unat (nextSwitchId_value c) + 1 < 2 ^ 256 \<and>
         u256ToSubPointer (nextSwitchId_value c) = u256ToSubPointer i \<and>
         loadSwitchChunkCount i (step e cl c) = 0)"
    using step_scalar [of switchChunkCountPointer i e cl c] ch
    by (simp add: loadSwitchChunkCount_def pointer_defs)
  then show ?thesis
  proof (elim disjE exE conjE)
    fix j idx d r assume a: "cl = StoreData j idx d" "j \<noteq> 0" "j < nextSwitchId_value c"
      "u256ToSubPointer j = u256ToSubPointer i" "loadSwitchChunkCount j c < idx + 1"
      "unat idx + 1 < 2 ^ 256" "storeData e j idx d c = Inr r"
      "loadSwitchChunkCount i (step e cl c) = idx + 1"
    show ?thesis using a eq [OF a(4)] by simp
  next
    fix b iv g assume a: "cl = CreateSwitch b iv g" "unat (nextSwitchId_value c) + 1 < 2 ^ 256"
      "u256ToSubPointer (nextSwitchId_value c) = u256ToSubPointer i"
      "loadSwitchChunkCount i (step e cl c) = 0"
    show ?thesis using a by simp
  qed
qed

lemma step_next:
  "nextSwitchId_value (step e cl c) = nextSwitchId_value c \<or>
   ((\<exists>b iv g. cl = CreateSwitch b iv g) \<and> unat (nextSwitchId_value c) + 1 < 2 ^ 256 \<and>
    nextSwitchId_value (step e cl c) = nextSwitchId_value c + 1)"
proof (cases "nextSwitchId_value (step e cl c) = nextSwitchId_value c")
  case False
  then have ch: "getU256ForSwitch nextSwitchIdPointer 0 (step e cl c) \<noteq> getU256ForSwitch nextSwitchIdPointer 0 c"
    by (simp add: nextSwitchId_value_eq)
  show ?thesis
    using step_scalar [of nextSwitchIdPointer 0 e cl c] ch
    by (simp add: nextSwitchId_value_eq pointer_defs)
qed simp

lemma status_inv_step: "status_inv c \<Longrightarrow> status_inv (step e cl c)"
  unfolding status_inv_def
proof (intro allI)
  fix i assume a: "\<forall>i. loadSwitchStatus i c = STATUS_ACTIVE \<or> loadSwitchStatus i c = STATUS_TRIGGERED"
  show "loadSwitchStatus i (step e cl c) = STATUS_ACTIVE \<or> loadSwitchStatus i (step e cl c) = STATUS_TRIGGERED"
  proof (cases "loadSwitchStatus i (step e cl c) = loadSwitchStatus i c")
    case True then show ?thesis using a by simp
  next
    case False then show ?thesis using step_status [OF False] by auto
  qed
qed

lemma status_inv_run: "status_inv c \<Longrightarrow> status_inv (run calls c)"
  by (induction calls arbitrary: c) (auto simp: status_inv_step)

lemma status_inv_deployed: "status_inv deployed"
  by (simp add: status_inv_def field_defs pointer_defs status_defs)

lemma unat_succ_u256:
  fixes n :: u256
  shows "unat n + 1 < 2 ^ 256 \<Longrightarrow> unat (n + 1) = unat n + 1"
  using unat_add_no_overflow [of n 1] by simp

lemma next_step_le: "unat (nextSwitchId_value (step e cl c)) \<le> unat (nextSwitchId_value c) + 1"
  using step_next [of e cl c] by (auto simp: unat_succ_u256)

lemma next_step_ge: "unat (nextSwitchId_value c) \<le> unat (nextSwitchId_value (step e cl c))"
  using step_next [of e cl c] by (auto simp: unat_succ_u256)

lemma next_run_le: "unat (nextSwitchId_value (run calls c)) \<le> unat (nextSwitchId_value c) + length calls"
proof (induction calls arbitrary: c)
  case Nil show ?case by simp
next
  case (Cons a calls)
  obtain e cl where a: "a = (e, cl)" by (cases a)
  show ?case using Cons [of "step e cl c"] next_step_le [of e cl c] by (simp add: a)
qed

lemma fresh_inv_step:
  assumes inv: "fresh_inv c" and b: "unat (nextSwitchId_value c) < 2 ^ 240"
  shows "fresh_inv (step e cl c)"
proof -
  let ?c' = "step e cl c"
  have n1: "1 \<le> unat (nextSwitchId_value ?c')"
    using inv next_step_ge [of c e cl] by (simp add: fresh_inv_def)
  have n2: "unat (nextSwitchId_value ?c') \<le> 2 ^ 240"
    using b next_step_le [of e cl c] by simp
  have fresh: "loadSwitchStatus i ?c' = STATUS_ACTIVE \<and> loadSwitchChunkCount i ?c' = 0"
    if i: "unat (nextSwitchId_value ?c') \<le> unat i" "unat i < 2 ^ 240" for i
  proof -
    have ge: "unat (nextSwitchId_value c) \<le> unat i" using i next_step_ge [of c e cl] by simp
    then have old: "loadSwitchStatus i c = STATUS_ACTIVE" "loadSwitchChunkCount i c = 0"
      using inv i by (simp_all add: fresh_inv_def)
    have nj: "u256ToSubPointer j \<noteq> u256ToSubPointer i" if "j < nextSwitchId_value c" for j
    proof
      assume s: "u256ToSubPointer j = u256ToSubPointer i"
      have "unat j < unat (nextSwitchId_value c)" using that by (simp add: word_less_nat_alt)
      then have "unat j < 2 ^ 240" "unat j < unat i" using b ge by simp_all
      then show False using u256ToSubPointer_inj [OF s] i by auto
    qed
    have "loadSwitchStatus i ?c' = STATUS_ACTIVE"
    proof (cases "loadSwitchStatus i ?c' = loadSwitchStatus i c")
      case True then show ?thesis using old by simp
    next
      case False then show ?thesis using step_status [OF False] nj by auto
    qed
    moreover have "loadSwitchChunkCount i ?c' = 0"
    proof (cases "loadSwitchChunkCount i ?c' = loadSwitchChunkCount i c")
      case True then show ?thesis using old by simp
    next
      case False then show ?thesis using step_chunk [OF False] nj by auto
    qed
    ultimately show ?thesis by simp
  qed
  show ?thesis using n1 n2 fresh by (simp add: fresh_inv_def)
qed

lemma fresh_inv_run:
  "fresh_inv c \<Longrightarrow> unat (nextSwitchId_value c) + length calls \<le> 2 ^ 240 \<Longrightarrow> fresh_inv (run calls c)"
proof (induction calls arbitrary: c)
  case Nil then show ?case by simp
next
  case (Cons a calls)
  obtain e cl where a: "a = (e, cl)" by (cases a)
  have b: "unat (nextSwitchId_value c) < 2 ^ 240" using Cons.prems by simp
  have "fresh_inv (step e cl c)" using Cons.prems(1) b by (rule fresh_inv_step)
  moreover have "unat (nextSwitchId_value (step e cl c)) + length calls \<le> 2 ^ 240"
    using Cons.prems(2) next_step_le [of e cl c] by simp
  ultimately show ?case using Cons.IH by (simp add: a)
qed

lemma fresh_inv_deployed: "fresh_inv deployed"
  by (simp add: fresh_inv_def field_defs pointer_defs status_defs)

lemma reach_inv:
  assumes "Suc (length calls) < 2 ^ 240"
  shows "fresh_inv (run calls deployed)" "unat (nextSwitchId_value (run calls deployed)) < 2 ^ 240"
proof -
  have n: "unat (nextSwitchId_value deployed) = 1" by (simp add: field_defs pointer_defs)
  show "fresh_inv (run calls deployed)"
    using fresh_inv_run [OF fresh_inv_deployed, of calls] assms n by simp
  show "unat (nextSwitchId_value (run calls deployed)) < 2 ^ 240"
    using next_run_le [of calls deployed] assms n by simp
qed

lemma existing_sub_eq:
  assumes "u256ToSubPointer j = u256ToSubPointer i" "j < nextSwitchId_value c" "i < nextSwitchId_value c"
    "unat (nextSwitchId_value c) \<le> 2 ^ 240"
  shows "j = i"
proof -
  have "unat j < unat (nextSwitchId_value c)" "unat i < unat (nextSwitchId_value c)"
    using assms by (simp_all add: word_less_nat_alt)
  then show ?thesis using u256ToSubPointer_inj [OF assms(1)] assms(4) by simp
qed


lemma storeData_chunk:
  assumes "storeData e i idx d c = Inr (r, c')"
  shows "unat (loadSwitchChunkCount i c') = max (unat (loadSwitchChunkCount i c)) (unat idx + 1)"
proof -
  obtain st where st: "storeMultiSlotBytes switchDataChunksPointer (compoundSubPointer i idx) d (store c) = Inr st"
    and no: "unat idx + 1 < 2 ^ 256"
    and c': "c' = emitEvent (DataStoredEvent i idx)
                       (if loadSwitchChunkCount i c < idx + 1
                        then storeSwitchChunkCount i (idx + 1) (c\<lparr>store := st\<rparr>)
                        else c\<lparr>store := st\<rparr>)"
    using assms by (auto simp add: storeData_eq split: if_splits sum.splits)
  have fr: "loadSwitchChunkCount i (c\<lparr>store := st\<rparr>) = loadSwitchChunkCount i c"
    using get_store_frame [OF st, of switchChunkCountPointer i]
    by (simp add: loadSwitchChunkCount_def pointer_defs)
  have u: "unat (idx + 1) = unat idx + 1" using no by (rule unat_succ_u256)
  show ?thesis
  proof (cases "loadSwitchChunkCount i c < idx + 1")
    case True
    then have "unat (loadSwitchChunkCount i c) < unat idx + 1"
      using u by (simp add: word_less_nat_alt)
    moreover have "loadSwitchChunkCount i c' = idx + 1"
      using True by (simp add: c' field_defs get_set_U256)
    ultimately show ?thesis using u by simp
  next
    case False
    then have "unat idx + 1 \<le> unat (loadSwitchChunkCount i c)"
      using u by (simp add: word_less_nat_alt)
    moreover have "loadSwitchChunkCount i c' = loadSwitchChunkCount i c"
      using False fr by (simp add: c' field_defs)
    ultimately show ?thesis by simp
  qed
qed

lemma storeData_sample: "storeData env0 1 2 [1, 2, 3] sample = Inr (RBool True, hole_sample)"
proof -
  obtain st where st: "storeMultiSlotBytes switchDataChunksPointer (compoundSubPointer 1 2) [1, 2, 3] (store sample) = Inr st"
    using storeMultiSlotBytes_ok [of "[1, 2, 3]"] by fastforce
  have "\<exists>c'. storeData env0 1 2 [1, 2, 3] sample = Inr (RBool True, c')"
    by (simp add: storeData_eq sample_facts env0_def status_defs st)
  then show ?thesis by (auto simp add: hole_sample_def step_def)
qed


lemma storeData_other_chunk:
  assumes ok: "storeData e j idx d c = Inr (r, c')" and ne: "j \<noteq> i"
    and ex: "i < nextSwitchId_value c" and nb: "unat (nextSwitchId_value c) \<le> 2 ^ 240"
  shows "loadSwitchChunkCount i c' = loadSwitchChunkCount i c"
proof (rule ccontr)
  assume n: "loadSwitchChunkCount i c' \<noteq> loadSwitchChunkCount i c"
  have st: "step e (StoreData j idx d) c = c'" using ok by (simp add: step_def)
  have "loadSwitchChunkCount i (step e (StoreData j idx d) c) \<noteq> loadSwitchChunkCount i c"
    using n st by simp
  from step_chunk [OF this]
  have "j < nextSwitchId_value c \<and> u256ToSubPointer j = u256ToSubPointer i" by auto
  then have "j = i" using existing_sub_eq [of j i c] ex nb by simp
  then show False using ne by simp
qed

lemma storeData_next:
  assumes "storeData e j idx d c = Inr (r, c')"
  shows "nextSwitchId_value c' = nextSwitchId_value c"
proof -
  have "step e (StoreData j idx d) c = c'" using assms by (simp add: step_def)
  then show ?thesis using step_next [of e "StoreData j idx d" c] by auto
qed

lemma storeData_seq:
  assumes ex: "i < nextSwitchId_value c" and nb: "unat (nextSwitchId_value c) \<le> 2 ^ 240"
  shows "unat (loadSwitchChunkCount i (run (storeData_calls stores) c)) =
     max (unat (loadSwitchChunkCount i c))
       (if successful_chunks i stores c = [] then 0
        else 1 + Max (set (map unat (successful_chunks i stores c))))"
  using ex nb
proof (induction stores arbitrary: c)
  case Nil show ?case by (simp add: storeData_calls_def)
next
  case (Cons a stores)
  obtain e j idx d where a: "a = (e, j, idx, d)" by (cases a)
  show ?case
  proof (cases "storeData e j idx d c")
    case (Inl err)
    then show ?thesis using Cons.IH [of c] Cons.prems by (simp add: a storeData_calls_def step_def)
  next
    case (Inr rc)
    obtain r c' where rc: "rc = (r, c')" by (cases rc)
    have ok: "storeData e j idx d c = Inr (r, c')" using Inr rc by simp
    have st: "step e (StoreData j idx d) c = c'" using ok by (simp add: step_def)
    have nx: "nextSwitchId_value c' = nextSwitchId_value c" using ok by (rule storeData_next)
    have run: "run (storeData_calls (a # stores)) c = run (storeData_calls stores) c'"
      using st by (simp add: a storeData_calls_def)
    have ih: "unat (loadSwitchChunkCount i (run (storeData_calls stores) c')) =
     max (unat (loadSwitchChunkCount i c'))
       (if successful_chunks i stores c' = [] then 0
        else 1 + Max (set (map unat (successful_chunks i stores c'))))"
      using Cons.IH [of c'] Cons.prems by (simp add: nx)
    show ?thesis
    proof (cases "j = i")
      case False
      have ch: "loadSwitchChunkCount i c' = loadSwitchChunkCount i c"
        using storeData_other_chunk [OF ok False] Cons.prems by simp
      have sc: "successful_chunks i (a # stores) c = successful_chunks i stores c'"
        using ok False by (simp add: a)
      show ?thesis using ih by (simp add: sc run ch)
    next
      case True
      have ch: "unat (loadSwitchChunkCount i c') = max (unat (loadSwitchChunkCount i c)) (unat idx + 1)"
        using storeData_chunk ok True by simp
      have sc: "successful_chunks i (a # stores) c = idx # successful_chunks i stores c'"
        using ok True by (simp add: a)
      show ?thesis
      proof (cases "successful_chunks i stores c' = []")
        case True
        then show ?thesis using ih ch by (simp add: sc run)
      next
        case False
        then have "Max (insert (unat idx) (set (map unat (successful_chunks i stores c'))))
           = max (unat idx) (Max (set (map unat (successful_chunks i stores c'))))"
          by (intro Max_insert) simp_all
        then show ?thesis using ih ch False by (simp add: sc run)
      qed
    qed
  qed
qed


section \<open>Two switches sharing a storage key\<close>

lemma load_slots_cong:
  "(\<And>j. idx \<le> j \<Longrightarrow> off + 32 * (j - idx) < len \<Longrightarrow>
        getStorageAt st (bigEndianAdd base j) = getStorageAt st' (bigEndianAdd base j)) \<Longrightarrow>
   load_slots base st len off idx result = load_slots base st' len off idx result"
proof (induction "len - off" arbitrary: off idx result rule: less_induct)
  case less
  show ?case
  proof (cases "off < len")
    case False
    then show ?thesis by (simp add: load_slots_unfold [of base st] load_slots_unfold [of base st'])
  next
    case True
    have d: "len - (off + 32) < len - off" using True by simp
    have g: "getStorageAt st (bigEndianAdd base idx) = getStorageAt st' (bigEndianAdd base idx)"
      using less.prems [of idx] True by simp
    have "load_slots base st len (off + 32) (idx + 1) r = load_slots base st' len (off + 32) (idx + 1) r" for r
    proof (rule less.hyps [OF d])
      fix j assume "idx + 1 \<le> j" "off + 32 + 32 * (j - (idx + 1)) < len"
      then show "getStorageAt st (bigEndianAdd base j) = getStorageAt st' (bigEndianAdd base j)"
        using less.prems [of j] by simp
    qed
    then show ?thesis using True g
      by (simp add: load_slots_unfold [of base st len off] load_slots_unfold [of base st' len off])
  qed
qed

lemma loadMultiSlotBytes_cong:
  assumes b: "getStorageAt st (encodePointer p s) = getStorageAt st' (encodePointer p s)"
    and j: "\<And>j. 1 \<le> j \<Longrightarrow> j < 2 ^ 32 \<Longrightarrow>
        getStorageAt st (bigEndianAdd (encodePointer p s) j) = getStorageAt st' (bigEndianAdd (encodePointer p s) j)"
  shows "loadMultiSlotBytes p s st = loadMultiSlotBytes p s st'"
proof -
  have "load_slots (encodePointer p s) st (unat w) 28 1 r = load_slots (encodePointer p s) st' (unat w) 28 1 r"
    for w :: u32 and r
  proof (rule load_slots_cong)
    fix k :: nat assume k: "1 \<le> k" "28 + 32 * (k - 1) < unat w"
    have "unat w < 2 ^ 32" using unsigned_less [of w, where 'a = nat] by simp
    then have "k < 2 ^ 32" using k by simp
    then show "getStorageAt st (bigEndianAdd (encodePointer p s) k) = getStorageAt st' (bigEndianAdd (encodePointer p s) k)"
      using j k by simp
  qed
  then show ?thesis by (simp add: loadMultiSlotBytes_def Let_def b)
qed

text \<open>Reading a chunk is not affected by a write to a scalar field.\<close>

lemma load_chunk_setU256:
  assumes "pointer_prefix q < 2560"
  shows "loadMultiSlotBytes switchDataChunksPointer (compoundSubPointer a b) (store (setU256ForSwitch q j v c))
         = loadMultiSlotBytes switchDataChunksPointer (compoundSubPointer a b) (store c)"
proof (rule loadMultiSlotBytes_cong)
  show "getStorageAt (store (setU256ForSwitch q j v c)) (encodePointer switchDataChunksPointer (compoundSubPointer a b))
        = getStorageAt (store c) (encodePointer switchDataChunksPointer (compoundSubPointer a b))"
    using assms by (auto simp add: store_setU256 getStorageAt_def pointer_defs)
next
  fix k :: nat assume "1 \<le> k" and "k < 2 ^ 32"
  from this(2) have "k < 2 ^ 240" by (rule less_trans) simp
  then have "bigEndianAdd (encodePointer switchDataChunksPointer (compoundSubPointer a b)) k
             \<noteq> encodePointer q (u256ToSubPointer j)"
    using assms by (intro multi_slot_key_above) (simp_all add: pointer_defs)
  then show "getStorageAt (store (setU256ForSwitch q j v c)) (bigEndianAdd (encodePointer switchDataChunksPointer (compoundSubPointer a b)) k)
        = getStorageAt (store c) (bigEndianAdd (encodePointer switchDataChunksPointer (compoundSubPointer a b)) k)"
    by (simp add: store_setU256 getStorageAt_def)
qed

lemma store_load:
  assumes "storeMultiSlotBytes p s d st = Inr st'"
  shows "loadMultiSlotBytes p s st' = Inr d"
proof -
  have "length d \<le> 8188"
    using assms by (simp add: storeMultiSlotBytes_def MAX_BYTE_SLOTS_def Let_def split: if_splits)
  then show ?thesis
    using assms store_then_load [of d _ p s, OF _ refl refl refl refl refl refl, of st]
    by (simp add: storeMultiSlotBytes_def MAX_BYTE_SLOTS_def Let_def setStorageAt_def)
qed

lemma sub_eq_small [simp]:
  "u256ToSubPointer 1 \<noteq> u256ToSubPointer 2" "u256ToSubPointer 2 \<noteq> u256ToSubPointer 1"
  "u256ToSubPointer 8 \<noteq> u256ToSubPointer 7" "u256ToSubPointer 7 \<noteq> u256ToSubPointer 8"
  using u256ToSubPointer_inj [of 1 2] u256ToSubPointer_inj [of 2 1]
    u256ToSubPointer_inj [of 8 7] u256ToSubPointer_inj [of 7 8]
  by auto

lemma load_chunk_storeSwitchChunkCount:
  "loadMultiSlotBytes switchDataChunksPointer (compoundSubPointer a b) (store (storeSwitchChunkCount j v c))
   = loadMultiSlotBytes switchDataChunksPointer (compoundSubPointer a b) (store c)"
  by (simp add: storeSwitchChunkCount_def load_chunk_setU256 switchChunkCountPointer_def)

lemma compound_2_1: "compoundSubPointer 2 1 = compoundSubPointer 1 2"
  by code_simp

lemma two_sample_eq:
  "two_sample = emitEvent (SwitchCreatedEvent 2 8 9)
         (set_nextSwitchId_value 3
          (setOwnerSwitchCount 8 1
           (setOwnerSwitchAtIndex 8 0 2
            (storeSwitchChunkCount 2 0
             (storeSwitchTriggerBlock 2 0
              (storeSwitchStatus 2 STATUS_ACTIVE
               (storeSwitchLastCheckin 2 100
                (storeSwitchGracePeriod 2 5
                 (storeSwitchInterval 2 10
                  (storeSwitchBeneficiary 2 9
                   (storeSwitchOwner 2 8 sample)))))))))))"
proof -
  have oc: "getOwnerSwitchCount 8 sample = 0"
    by (simp add: sample_eq field_defs get_set_U256 get_setOwnerSwitchAtIndex pointer_defs)
  show ?thesis
    by (simp add: two_sample_def step_def createSwitch_eq sample_facts oc)
qed

lemma two_sample_facts:
  "nextSwitchId_value two_sample = 3"
  "loadSwitchOwner 1 two_sample = 7" "loadSwitchOwner 2 two_sample = 8"
  "loadSwitchStatus 1 two_sample = 0" "loadSwitchStatus 2 two_sample = 0"
  "loadSwitchChunkCount 1 two_sample = 0" "loadSwitchChunkCount 2 two_sample = 0"
  using sample_facts
  by (simp_all add: two_sample_eq field_defs get_set_U256 get_setOwnerSwitchAtIndex pointer_defs status_defs)

lemma stored_sample_facts:
  "nextSwitchId_value stored_sample = 3"
  "loadSwitchOwner 1 stored_sample = 7"
  "loadSwitchStatus 1 stored_sample = 0"
  "loadSwitchChunkCount 1 stored_sample = 0" "loadSwitchChunkCount 2 stored_sample = 2"
  "loadMultiSlotBytes switchDataChunksPointer (compoundSubPointer 2 1) (store stored_sample) = Inr [9, 9]"
proof -
  obtain st where st: "storeMultiSlotBytes switchDataChunksPointer (compoundSubPointer 2 1) [9, 9] (store two_sample) = Inr st"
    using storeMultiSlotBytes_ok [of "[9, 9]"] by fastforce
  have h: "stored_sample = emitEvent (DataStoredEvent 2 1) (storeSwitchChunkCount 2 2 (two_sample\<lparr>store := st\<rparr>))"
    by (simp add: stored_sample_def step_def storeData_eq two_sample_facts status_defs st
        word_less_nat_alt word_le_nat_alt)
  have fr: "getU256ForSwitch q i (two_sample\<lparr>store := st\<rparr>) = getU256ForSwitch q i two_sample"
    if "pointer_prefix q < 2560" for q i
    using get_store_frame [OF st, of q i] that by (simp add: pointer_defs)
  show "nextSwitchId_value stored_sample = 3"
    using two_sample_facts(1) by (simp add: h field_defs get_set_U256 pointer_defs fr)
  show "loadSwitchOwner 1 stored_sample = 7"
    using two_sample_facts(2) by (simp add: h field_defs get_set_U256 pointer_defs fr)
  show "loadSwitchStatus 1 stored_sample = 0"
    using two_sample_facts(4) by (simp add: h field_defs get_set_U256 pointer_defs fr)
  show "loadSwitchChunkCount 1 stored_sample = 0"
    using two_sample_facts(6) by (simp add: h field_defs get_set_U256 pointer_defs fr)
  show "loadSwitchChunkCount 2 stored_sample = 2"
    by (simp add: h field_defs get_set_U256 pointer_defs)
  have "loadMultiSlotBytes switchDataChunksPointer (compoundSubPointer 2 1) (store stored_sample)
        = loadMultiSlotBytes switchDataChunksPointer (compoundSubPointer 2 1) (store (two_sample\<lparr>store := st\<rparr>))"
    by (simp add: h load_chunk_storeSwitchChunkCount)
  then show "loadMultiSlotBytes switchDataChunksPointer (compoundSubPointer 2 1) (store stored_sample) = Inr [9, 9]"
    using store_load [OF st] by simp
qed

lemma collision_sample_facts:
  "nextSwitchId_value collision_sample = 3"
  "loadSwitchChunkCount 2 collision_sample = 2"
  "loadMultiSlotBytes switchDataChunksPointer (compoundSubPointer 2 1) (store collision_sample) = Inr [1, 2, 3]"
proof -
  obtain st where st: "storeMultiSlotBytes switchDataChunksPointer (compoundSubPointer 1 2) [1, 2, 3] (store stored_sample) = Inr st"
    using storeMultiSlotBytes_ok [of "[1, 2, 3]"] by fastforce
  have h: "collision_sample = emitEvent (DataStoredEvent 1 2) (storeSwitchChunkCount 1 3 (stored_sample\<lparr>store := st\<rparr>))"
    by (simp add: collision_sample_def step_def storeData_eq stored_sample_facts status_defs st
        word_less_nat_alt word_le_nat_alt)
  have fr: "getU256ForSwitch q i (stored_sample\<lparr>store := st\<rparr>) = getU256ForSwitch q i stored_sample"
    if "pointer_prefix q < 2560" for q i
    using get_store_frame [OF st, of q i] that by (simp add: pointer_defs)
  show "nextSwitchId_value collision_sample = 3"
    using stored_sample_facts(1) by (simp add: h field_defs get_set_U256 pointer_defs fr)
  show "loadSwitchChunkCount 2 collision_sample = 2"
    using stored_sample_facts(5) by (simp add: h field_defs get_set_U256 pointer_defs fr)
  have "loadMultiSlotBytes switchDataChunksPointer (compoundSubPointer 1 2) (store collision_sample)
        = loadMultiSlotBytes switchDataChunksPointer (compoundSubPointer 1 2) (store (stored_sample\<lparr>store := st\<rparr>))"
    by (simp add: h load_chunk_storeSwitchChunkCount)
  then show "loadMultiSlotBytes switchDataChunksPointer (compoundSubPointer 2 1) (store collision_sample) = Inr [1, 2, 3]"
    using store_load [OF st] by (simp add: compound_2_1)
qed


section \<open>The claims\<close>

subsection \<open>Claim C1\<close>

text \<open>
  Claim C1 (collision resistance of the compound sub-pointers). The claim fails on the code:
  the byte-wise XOR is symmetric, so the distinct pairs \<open>(1, 2)\<close> and \<open>(2, 1)\<close> get the
  same 30-byte sub-key, from \<open>compoundSubPointer\<close> as well as from
  \<open>addressIndexSubPointer\<close>. Chunk 1 of switch 2 and chunk 2 of switch 1 then share a storage
  key: after the owner of switch 2 stored \<open>[9, 9]\<close> as its chunk 1, the owner of switch 1
  stores \<open>[1, 2, 3]\<close> as its chunk 2, and \<open>getData\<close> for chunk 1 of switch 2 returns
  \<open>[1, 2, 3]\<close>.
\<close>

theorem compound_sub_pointer_collision:
  "(1 :: u256, 2 :: u256) \<noteq> (2, 1) \<and>
   compoundSubPointer 1 2 = compoundSubPointer 2 1 \<and>
   addressIndexSubPointer 1 2 = addressIndexSubPointer 2 1 \<and>
   outcome (getData 2 1 stored_sample) = Inr (RBytes [9, 9]) \<and>
   outcome (getData 2 1 collision_sample) = Inr (RBytes [1, 2, 3])"
proof -
  have "compoundSubPointer 1 2 = compoundSubPointer 2 1 \<and>
   addressIndexSubPointer 1 2 = addressIndexSubPointer 2 1"
    by code_simp
  moreover have "outcome (getData 2 1 stored_sample) = Inr (RBytes [9, 9])"
    by (simp add: getData_eq outcome_def stored_sample_facts word_le_nat_alt)
  moreover have "outcome (getData 2 1 collision_sample) = Inr (RBytes [1, 2, 3])"
    by (simp add: getData_eq outcome_def collision_sample_facts word_le_nat_alt)
  ultimately show ?thesis by simp
qed

subsection \<open>Claim C2\<close>

text \<open>
  Claim C2 (round trip of the multi-slot byte store). For every pointer, sub-pointer and
  byte array of at most \<open>256 * 32 - 4\<close> bytes, \<open>storeMultiSlotBytes\<close> succeeds and
  \<open>loadMultiSlotBytes\<close> on the resulting store returns exactly the array that was stored,
  whatever the store held before. The empty array and the lengths that exactly fill the last
  slot are instances.
\<close>

theorem multi_slot_round_trip:
  "length d \<le> 256 * 32 - 4 \<Longrightarrow>
   \<exists>st'. storeMultiSlotBytes p s d st = Inr st' \<and> loadMultiSlotBytes p s st' = Inr d"
  using store_then_load [of d _ p s, OF _ refl refl refl refl refl refl, of st]
  by (simp add: storeMultiSlotBytes_def MAX_BYTE_SLOTS_def Let_def setStorageAt_def)

theorem multi_slot_round_trip_witness:
  "length [1, 2, 3 :: u8] \<le> 256 * 32 - 4 \<and>
   (\<exists>st'. storeMultiSlotBytes 10 (compoundSubPointer 1 2) [1, 2, 3] Map.empty = Inr st' \<and>
          loadMultiSlotBytes 10 (compoundSubPointer 1 2) st' = Inr [1, 2, 3])"
  using multi_slot_round_trip [of "[1, 2, 3]" 10 "compoundSubPointer 1 2" Map.empty] by simp

subsection \<open>Claim C3\<close>

text \<open>
  Claim C3 (trigger gating). For an existing switch whose status is neither TRIGGERED nor
  CANCELLED, \<open>trigger\<close> fails while the current block is at or before
  \<open>lastCheckin + interval\<close>; past that block it succeeds for any caller, sets the status
  to TRIGGERED and the trigger block to the current block, and every later \<open>trigger\<close>
  fails with "Switch already triggered", as it does in any state whose status is TRIGGERED.
\<close>

theorem trigger_gating:
  assumes ex: "switchId \<noteq> 0" "switchId < nextSwitchId_value c"
    and st: "loadSwitchStatus switchId c \<noteq> STATUS_TRIGGERED"
            "loadSwitchStatus switchId c \<noteq> STATUS_CANCELLED"
  shows "(unat (blockNumber e) \<le> unat (loadSwitchLastCheckin switchId c) + unat (loadSwitchInterval switchId c)
            \<longrightarrow> (\<exists>err. trigger e switchId c = Inl err)) \<and>
         (unat (blockNumber e) > unat (loadSwitchLastCheckin switchId c) + unat (loadSwitchInterval switchId c)
            \<longrightarrow> (\<exists>c'. trigger e switchId c = Inr (RBool True, c') \<and>
                    loadSwitchStatus switchId c' = STATUS_TRIGGERED \<and>
                    loadSwitchTriggerBlock switchId c' = blockNumber e \<and>
                    (\<forall>e'. trigger e' switchId c' = Inl (Revert ''Switch already triggered'')))) \<and>
         (\<forall>e' c2. switchId < nextSwitchId_value c2 \<and> loadSwitchStatus switchId c2 = STATUS_TRIGGERED
            \<longrightarrow> trigger e' switchId c2 = Inl (Revert ''Switch already triggered''))"
proof (intro conjI impI allI)
  assume "unat (blockNumber e) \<le> unat (loadSwitchLastCheckin switchId c) + unat (loadSwitchInterval switchId c)"
  then show "\<exists>err. trigger e switchId c = Inl err"
    using ex st by (simp add: trigger_eq not_le)
next
  assume gt: "unat (blockNumber e) > unat (loadSwitchLastCheckin switchId c) + unat (loadSwitchInterval switchId c)"
  then have no: "unat (loadSwitchLastCheckin switchId c) + unat (loadSwitchInterval switchId c) < 2 ^ 256"
    using unat_lt_u256 [of "blockNumber e"] by simp
  define c' where "c' = emitEvent (SwitchTriggeredEvent switchId (loadSwitchBeneficiary switchId c) (blockNumber e))
               (storeSwitchTriggerBlock switchId (blockNumber e)
                 (storeSwitchStatus switchId STATUS_TRIGGERED c))"
  have r: "trigger e switchId c = Inr (RBool True, c')"
    using ex st gt no by (simp add: trigger_eq not_le c'_def)
  have s': "loadSwitchStatus switchId c' = STATUS_TRIGGERED"
    by (simp add: c'_def field_defs get_set_U256 pointer_defs)
  have t': "loadSwitchTriggerBlock switchId c' = blockNumber e"
    by (simp add: c'_def field_defs get_set_U256 pointer_defs)
  have n': "nextSwitchId_value c' = nextSwitchId_value c"
    by (simp add: c'_def field_defs get_set_U256 pointer_defs)
  have "trigger e' switchId c' = Inl (Revert ''Switch already triggered'')" for e'
    using ex s' n' by (simp add: trigger_eq not_le)
  then show "\<exists>c'. trigger e switchId c = Inr (RBool True, c') \<and>
                    loadSwitchStatus switchId c' = STATUS_TRIGGERED \<and>
                    loadSwitchTriggerBlock switchId c' = blockNumber e \<and>
                    (\<forall>e'. trigger e' switchId c' = Inl (Revert ''Switch already triggered''))"
    using r s' t' by blast
next
  fix e' c2
  assume "switchId < nextSwitchId_value c2 \<and> loadSwitchStatus switchId c2 = STATUS_TRIGGERED"
  then show "trigger e' switchId c2 = Inl (Revert ''Switch already triggered'')"
    using ex by (simp add: trigger_eq not_le)
qed

theorem trigger_gating_witness:
  "(1 :: u256) \<noteq> 0 \<and> 1 < nextSwitchId_value sample \<and>
   loadSwitchStatus 1 sample \<noteq> STATUS_TRIGGERED \<and> loadSwitchStatus 1 sample \<noteq> STATUS_CANCELLED \<and>
   (\<exists>err. trigger \<lparr>sender = 3, blockNumber = 110\<rparr> 1 sample = Inl err) \<and>
   (\<exists>c'. trigger \<lparr>sender = 3, blockNumber = 111\<rparr> 1 sample = Inr (RBool True, c') \<and>
         loadSwitchStatus 1 c' = STATUS_TRIGGERED \<and> loadSwitchTriggerBlock 1 c' = 111 \<and>
         (\<forall>e'. trigger e' 1 c' = Inl (Revert ''Switch already triggered''))) \<and>
   (1 < nextSwitchId_value triggered_sample \<and> loadSwitchStatus 1 triggered_sample = STATUS_TRIGGERED \<and>
    trigger env0 1 triggered_sample = Inl (Revert ''Switch already triggered''))"
proof -
  have h: "(1 :: u256) \<noteq> 0" "1 < nextSwitchId_value sample"
    "loadSwitchStatus 1 sample \<noteq> STATUS_TRIGGERED" "loadSwitchStatus 1 sample \<noteq> STATUS_CANCELLED"
    by (simp_all add: sample_facts status_defs)
  have t: "1 < nextSwitchId_value triggered_sample \<and> loadSwitchStatus 1 triggered_sample = STATUS_TRIGGERED"
    by (simp add: triggered_sample_facts status_defs)
  show ?thesis
    using h t trigger_gating [OF h, of "\<lparr>sender = 3, blockNumber = 110\<rparr>"]
      trigger_gating [OF h, of "\<lparr>sender = 3, blockNumber = 111\<rparr>"]
    by (simp add: sample_facts)
qed

subsection \<open>Claim C4\<close>

text \<open>
  Claim C4 (cancel window and effect). As stated the claim fails: the grace deadline is
  computed with a checked addition, so a switch whose \<open>triggerBlock + gracePeriod\<close> exceeds
  256 bits can never be cancelled, although the current block is below that sum. Here the
  switch was created with the largest grace period and triggered at block 102; its owner
  cancels at block 103.
\<close>

theorem cancel_overflow_counterexample:
  "(1 :: u256) \<noteq> 0 \<and> 1 < nextSwitchId_value overflow_sample \<and>
   sender \<lparr>sender = 7, blockNumber = 103\<rparr> = loadSwitchOwner 1 overflow_sample \<and>
   loadSwitchStatus 1 overflow_sample = STATUS_TRIGGERED \<and>
   unat (blockNumber \<lparr>sender = 7, blockNumber = 103\<rparr>)
     \<le> unat (loadSwitchTriggerBlock 1 overflow_sample) + unat (loadSwitchGracePeriod 1 overflow_sample) \<and>
   cancel \<lparr>sender = 7, blockNumber = 103\<rparr> 1 overflow_sample = Inl (Revert ''SafeMath: addition overflow'')"
  by (simp add: cancel_eq overflow_sample_facts status_defs)

text \<open>
  Claim C4, amended. For an existing switch, \<open>cancel\<close> called by the owner succeeds if and
  only if the status is TRIGGERED, \<open>triggerBlock + gracePeriod\<close> does not overflow 256 bits
  and the current block is at most that sum. On success the status is ACTIVE, the last
  checkin is the current block and the trigger block is 0; \<open>isExpired\<close> and \<open>trigger\<close> then
  answer as they do after any successful \<open>checkin\<close> of that switch at the same block with
  the same interval.
\<close>

theorem cancel_window:
  assumes ex: "switchId \<noteq> 0" "switchId < nextSwitchId_value c"
    and own: "sender e = loadSwitchOwner switchId c"
  shows "((\<exists>r. cancel e switchId c = Inr r) \<longleftrightarrow>
            loadSwitchStatus switchId c = STATUS_TRIGGERED \<and>
            unat (loadSwitchTriggerBlock switchId c) + unat (loadSwitchGracePeriod switchId c) < 2 ^ 256 \<and>
            unat (blockNumber e) \<le> unat (loadSwitchTriggerBlock switchId c) + unat (loadSwitchGracePeriod switchId c)) \<and>
         (\<forall>r c'. cancel e switchId c = Inr (r, c') \<longrightarrow>
            loadSwitchStatus switchId c' = STATUS_ACTIVE \<and>
            loadSwitchLastCheckin switchId c' = blockNumber e \<and>
            loadSwitchTriggerBlock switchId c' = 0 \<and>
            (\<forall>e2 c2 r3 c3 e'.
               checkin e2 switchId c2 = Inr (r3, c3) \<and> blockNumber e2 = blockNumber e \<and>
               loadSwitchInterval switchId c2 = loadSwitchInterval switchId c \<longrightarrow>
                 outcome (isExpired e' switchId c') = outcome (isExpired e' switchId c3) \<and>
                 outcome (trigger e' switchId c') = outcome (trigger e' switchId c3)))"
proof (intro conjI allI impI)
  show "(\<exists>r. cancel e switchId c = Inr r) \<longleftrightarrow>
            loadSwitchStatus switchId c = STATUS_TRIGGERED \<and>
            unat (loadSwitchTriggerBlock switchId c) + unat (loadSwitchGracePeriod switchId c) < 2 ^ 256 \<and>
            unat (blockNumber e) \<le> unat (loadSwitchTriggerBlock switchId c) + unat (loadSwitchGracePeriod switchId c)"
    using ex own by (auto simp add: cancel_eq not_le)
next
  fix r c' assume ok: "cancel e switchId c = Inr (r, c')"
  then have c': "c' = emitEvent (SwitchCancelledEvent switchId (blockNumber e))
               (storeSwitchTriggerBlock switchId 0
                 (storeSwitchLastCheckin switchId (blockNumber e)
                   (storeSwitchStatus switchId STATUS_ACTIVE c)))"
    by (simp add: cancel_eq split: if_splits)
  show s: "loadSwitchStatus switchId c' = STATUS_ACTIVE"
    by (simp add: c' field_defs get_set_U256 pointer_defs)
  show l: "loadSwitchLastCheckin switchId c' = blockNumber e"
    by (simp add: c' field_defs get_set_U256 pointer_defs)
  show "loadSwitchTriggerBlock switchId c' = 0"
    by (simp add: c' field_defs get_set_U256 pointer_defs)
  have n: "nextSwitchId_value c' = nextSwitchId_value c"
    by (simp add: c' field_defs get_set_U256 pointer_defs)
  have i: "loadSwitchInterval switchId c' = loadSwitchInterval switchId c"
    by (simp add: c' field_defs get_set_U256 pointer_defs)
  fix e2 c2 r3 c3 e'
  assume a: "checkin e2 switchId c2 = Inr (r3, c3) \<and> blockNumber e2 = blockNumber e \<and>
               loadSwitchInterval switchId c2 = loadSwitchInterval switchId c"
  then have c3: "c3 = emitEvent (CheckedInEvent switchId (blockNumber e2))
               (storeSwitchLastCheckin switchId (blockNumber e2) c2)"
    and ex2: "switchId < nextSwitchId_value c2" and s2: "loadSwitchStatus switchId c2 = STATUS_ACTIVE"
    by (auto simp add: checkin_eq not_le split: if_splits)
  have n3: "nextSwitchId_value c3 = nextSwitchId_value c2"
    and s3: "loadSwitchStatus switchId c3 = STATUS_ACTIVE"
    and l3: "loadSwitchLastCheckin switchId c3 = blockNumber e"
    and i3: "loadSwitchInterval switchId c3 = loadSwitchInterval switchId c"
    using a s2 by (simp_all add: c3 field_defs get_set_U256 pointer_defs)
  show "outcome (isExpired e' switchId c') = outcome (isExpired e' switchId c3)"
    using ex ex2 by (simp add: isExpired_eq outcome_def n n3 l l3 i i3 not_le)
  show "outcome (trigger e' switchId c') = outcome (trigger e' switchId c3)"
    using ex ex2 by (simp add: trigger_eq outcome_def n n3 l l3 i i3 s s3 not_le status_defs)
qed

theorem cancel_window_witness:
  "(1 :: u256) \<noteq> 0 \<and> 1 < nextSwitchId_value triggered_sample \<and>
   sender \<lparr>sender = 7, blockNumber = 115\<rparr> = loadSwitchOwner 1 triggered_sample \<and>
   (\<exists>r. cancel \<lparr>sender = 7, blockNumber = 115\<rparr> 1 triggered_sample = Inr r) \<and>
   (\<nexists>r. cancel \<lparr>sender = 7, blockNumber = 117\<rparr> 1 triggered_sample = Inr r)"
proof -
  have h: "(1 :: u256) \<noteq> 0" "1 < nextSwitchId_value triggered_sample"
    by (simp_all add: triggered_sample_facts)
  have o: "sender \<lparr>sender = 7, blockNumber = b\<rparr> = loadSwitchOwner 1 triggered_sample" for b
    by (simp add: triggered_sample_facts)
  show ?thesis
    using h o [of 115] cancel_window [OF h o [of 115]] cancel_window [OF h o [of 117]]
    by (simp add: triggered_sample_facts status_defs)
qed

subsection \<open>Claim C5\<close>

text \<open>
  Claim C5 (CANCELLED is unreachable, transitions are restricted). In every state reached
  from deployment by any sequence of calls, the stored status of every identifier is ACTIVE
  or TRIGGERED, never CANCELLED. For a sequence of fewer than \<open>2^240\<close> calls (records are
  keyed by the low 30 bytes of their identifier) and an existing record, a further call
  changes the status only from ACTIVE to TRIGGERED, by \<open>trigger\<close> of that same record, or
  from TRIGGERED to ACTIVE, by \<open>cancel\<close> of that same record.
\<close>

theorem cancelled_unreachable:
  "(loadSwitchStatus i (run calls deployed) = STATUS_ACTIVE \<or>
    loadSwitchStatus i (run calls deployed) = STATUS_TRIGGERED) \<and>
   loadSwitchStatus i (run calls deployed) \<noteq> STATUS_CANCELLED \<and>
   (Suc (length calls) < 2 ^ 240 \<and> i \<noteq> 0 \<and> i < nextSwitchId_value (run calls deployed) \<and>
    loadSwitchStatus i (step e cl (run calls deployed)) \<noteq> loadSwitchStatus i (run calls deployed) \<longrightarrow>
      (cl = Trigger i \<and> loadSwitchStatus i (run calls deployed) = STATUS_ACTIVE \<and>
       loadSwitchStatus i (step e cl (run calls deployed)) = STATUS_TRIGGERED) \<or>
      (cl = Cancel i \<and> loadSwitchStatus i (run calls deployed) = STATUS_TRIGGERED \<and>
       loadSwitchStatus i (step e cl (run calls deployed)) = STATUS_ACTIVE))"
proof (intro conjI impI)
  define c where "c = run calls deployed"
  have si: "status_inv c" unfolding c_def by (rule status_inv_run [OF status_inv_deployed])
  then show at: "loadSwitchStatus i (run calls deployed) = STATUS_ACTIVE \<or>
    loadSwitchStatus i (run calls deployed) = STATUS_TRIGGERED"
    by (simp add: status_inv_def c_def)
  then show "loadSwitchStatus i (run calls deployed) \<noteq> STATUS_CANCELLED"
    by (auto simp: status_defs)
  assume a: "Suc (length calls) < 2 ^ 240 \<and> i \<noteq> 0 \<and> i < nextSwitchId_value (run calls deployed) \<and>
    loadSwitchStatus i (step e cl (run calls deployed)) \<noteq> loadSwitchStatus i (run calls deployed)"
  then have fi: "fresh_inv c" and nb: "unat (nextSwitchId_value c) < 2 ^ 240"
    unfolding c_def using reach_inv [of calls] by simp_all
  have ex: "i < nextSwitchId_value c" and ch: "loadSwitchStatus i (step e cl c) \<noteq> loadSwitchStatus i c"
    using a by (simp_all add: c_def)
  have same: "j = i" if "u256ToSubPointer j = u256ToSubPointer i" "j < nextSwitchId_value c" for j
    using existing_sub_eq [OF that ex] nb by simp
  have nocreate: False if s: "u256ToSubPointer (nextSwitchId_value c) = u256ToSubPointer i"
  proof -
    have "unat i < unat (nextSwitchId_value c)" using ex by (simp add: word_less_nat_alt)
    then have "unat i < 2 ^ 240" "unat i \<noteq> unat (nextSwitchId_value c)" using nb by simp_all
    then show False using u256ToSubPointer_inj [OF s nb] by auto
  qed
  have "(cl = Trigger i \<and> loadSwitchStatus i c = STATUS_ACTIVE \<and>
       loadSwitchStatus i (step e cl c) = STATUS_TRIGGERED) \<or>
      (cl = Cancel i \<and> loadSwitchStatus i c = STATUS_TRIGGERED \<and>
       loadSwitchStatus i (step e cl c) = STATUS_ACTIVE)"
    using step_status [OF ch] same nocreate at unfolding c_def [symmetric] by auto
  then show "(cl = Trigger i \<and> loadSwitchStatus i (run calls deployed) = STATUS_ACTIVE \<and>
       loadSwitchStatus i (step e cl (run calls deployed)) = STATUS_TRIGGERED) \<or>
      (cl = Cancel i \<and> loadSwitchStatus i (run calls deployed) = STATUS_TRIGGERED \<and>
       loadSwitchStatus i (step e cl (run calls deployed)) = STATUS_ACTIVE)"
    by (simp add: c_def)
qed

theorem cancelled_unreachable_witness:
  "Suc (length [(env0, CreateSwitch 9 10 5)]) < 2 ^ 240 \<and> (1 :: u256) \<noteq> 0 \<and>
   1 < nextSwitchId_value (run [(env0, CreateSwitch 9 10 5)] deployed) \<and>
   loadSwitchStatus 1 (step \<lparr>sender = 3, blockNumber = 111\<rparr> (Trigger 1) (run [(env0, CreateSwitch 9 10 5)] deployed))
     \<noteq> loadSwitchStatus 1 (run [(env0, CreateSwitch 9 10 5)] deployed) \<and>
   loadSwitchStatus 1 (run [(env0, CreateSwitch 9 10 5)] deployed) = STATUS_ACTIVE \<and>
   loadSwitchStatus 1 (step \<lparr>sender = 3, blockNumber = 111\<rparr> (Trigger 1) (run [(env0, CreateSwitch 9 10 5)] deployed))
     = STATUS_TRIGGERED"
proof -
  have r: "run [(env0, CreateSwitch 9 10 5)] deployed = sample"
    by (simp add: sample_def)
  have s: "step \<lparr>sender = 3, blockNumber = 111\<rparr> (Trigger 1) sample = triggered_sample"
    by (simp add: triggered_sample_def)
  show ?thesis
    unfolding r s
    using cancelled_unreachable [of 1 "[(env0, CreateSwitch 9 10 5)]"
        "\<lparr>sender = 3, blockNumber = 111\<rparr>" "Trigger 1", unfolded r s]
    by (simp add: sample_facts triggered_sample_facts status_defs)
qed

subsection \<open>Claim C6\<close>

text \<open>
  Claim C6 (existence gate). \<open>getSwitch\<close> succeeds exactly for the identifiers from 1 up to,
  and excluding, \<open>nextSwitchId\<close>; for the identifier 0 and for every identifier from
  \<open>nextSwitchId\<close> on, each operation that takes a switch identifier fails with
  "Switch does not exist".
\<close>

theorem existence_gate:
  "((\<exists>r. getSwitch switchId c = Inr r) \<longleftrightarrow> 1 \<le> switchId \<and> switchId < nextSwitchId_value c) \<and>
   (switchId = 0 \<or> nextSwitchId_value c \<le> switchId \<longrightarrow>
      checkin e switchId c = Inl (Revert ''Switch does not exist'') \<and>
      storeData e switchId chunkIndex d c = Inl (Revert ''Switch does not exist'') \<and>
      storeDecryptionKey e switchId k c = Inl (Revert ''Switch does not exist'') \<and>
      trigger e switchId c = Inl (Revert ''Switch does not exist'') \<and>
      cancel e switchId c = Inl (Revert ''Switch does not exist'') \<and>
      updateBeneficiary e switchId a c = Inl (Revert ''Switch does not exist'') \<and>
      updateInterval e switchId i c = Inl (Revert ''Switch does not exist'') \<and>
      getSwitch switchId c = Inl (Revert ''Switch does not exist'') \<and>
      getData switchId chunkIndex c = Inl (Revert ''Switch does not exist'') \<and>
      getDecryptionKey switchId c = Inl (Revert ''Switch does not exist'') \<and>
      isExpired e switchId c = Inl (Revert ''Switch does not exist''))"
proof -
  have "1 \<le> switchId \<longleftrightarrow> switchId \<noteq> 0"
    by (simp add: word_le_nat_alt unat_eq_0 Suc_le_eq unat_gt_0)
  then show ?thesis
    by (auto simp add: getSwitch_eq checkin_eq storeData_eq storeDecryptionKey_eq trigger_eq cancel_eq
        updateBeneficiary_eq updateInterval_eq getData_eq getDecryptionKey_eq isExpired_eq not_le)
qed

theorem existence_gate_witness:
  "((0 :: u256) = 0 \<or> nextSwitchId_value sample \<le> 0) \<and>
   (nextSwitchId_value sample \<le> 2) \<and>
   (\<exists>r. getSwitch 1 sample = Inr r) \<and>
   getSwitch 0 sample = Inl (Revert ''Switch does not exist'') \<and>
   getSwitch 2 sample = Inl (Revert ''Switch does not exist'') \<and>
   checkin env0 2 sample = Inl (Revert ''Switch does not exist'') \<and>
   trigger env0 0 sample = Inl (Revert ''Switch does not exist'')"
  using existence_gate [of 1 sample env0 0 "[]" "[]" 0 0]
    existence_gate [of 0 sample env0 0 "[]" "[]" 0 0]
    existence_gate [of 2 sample env0 0 "[]" "[]" 0 0]
  by (simp add: sample_facts)

subsection \<open>Claim C7\<close>

text \<open>
  Claim C7 (access control). For an existing switch, \<open>checkin\<close>, \<open>storeData\<close>,
  \<open>storeDecryptionKey\<close>, \<open>cancel\<close>, \<open>updateBeneficiary\<close> and \<open>updateInterval\<close> fail with
  "Only owner can call this method" when the caller is not the stored owner; \<open>trigger\<close>
  succeeds for every caller once the status is neither TRIGGERED nor CANCELLED and the
  current block is past \<open>lastCheckin + interval\<close>.
\<close>

theorem access_control:
  assumes ex: "switchId \<noteq> 0" "switchId < nextSwitchId_value c"
  shows "(sender e \<noteq> loadSwitchOwner switchId c \<longrightarrow>
            checkin e switchId c = Inl (Revert ''Only owner can call this method'') \<and>
            storeData e switchId chunkIndex d c = Inl (Revert ''Only owner can call this method'') \<and>
            storeDecryptionKey e switchId k c = Inl (Revert ''Only owner can call this method'') \<and>
            cancel e switchId c = Inl (Revert ''Only owner can call this method'') \<and>
            updateBeneficiary e switchId a c = Inl (Revert ''Only owner can call this method'') \<and>
            updateInterval e switchId i c = Inl (Revert ''Only owner can call this method'')) \<and>
         (loadSwitchStatus switchId c \<noteq> STATUS_TRIGGERED \<and>
          loadSwitchStatus switchId c \<noteq> STATUS_CANCELLED \<and>
          unat (blockNumber e) > unat (loadSwitchLastCheckin switchId c) + unat (loadSwitchInterval switchId c) \<longrightarrow>
            (\<forall>caller. \<exists>c'. trigger (e\<lparr>sender := caller\<rparr>) switchId c = Inr (RBool True, c')))"
proof (intro conjI impI allI)
  assume gt: "loadSwitchStatus switchId c \<noteq> STATUS_TRIGGERED \<and>
          loadSwitchStatus switchId c \<noteq> STATUS_CANCELLED \<and>
          unat (blockNumber e) > unat (loadSwitchLastCheckin switchId c) + unat (loadSwitchInterval switchId c)"
  then have no: "unat (loadSwitchLastCheckin switchId c) + unat (loadSwitchInterval switchId c) < 2 ^ 256"
    using unat_lt_u256 [of "blockNumber e"] by simp
  fix caller
  show "\<exists>c'. trigger (e\<lparr>sender := caller\<rparr>) switchId c = Inr (RBool True, c')"
    using ex gt no by (simp add: trigger_eq not_le)
qed (use ex in \<open>simp_all add: checkin_eq storeData_eq storeDecryptionKey_eq cancel_eq
        updateBeneficiary_eq updateInterval_eq not_le\<close>)

theorem access_control_witness:
  "(1 :: u256) \<noteq> 0 \<and> 1 < nextSwitchId_value sample \<and>
   sender \<lparr>sender = 3, blockNumber = 111\<rparr> \<noteq> loadSwitchOwner 1 sample \<and>
   checkin \<lparr>sender = 3, blockNumber = 111\<rparr> 1 sample = Inl (Revert ''Only owner can call this method'') \<and>
   storeData \<lparr>sender = 3, blockNumber = 111\<rparr> 1 0 [1] sample = Inl (Revert ''Only owner can call this method'') \<and>
   cancel \<lparr>sender = 3, blockNumber = 111\<rparr> 1 sample = Inl (Revert ''Only owner can call this method'') \<and>
   (\<exists>c'. trigger \<lparr>sender = 3, blockNumber = 111\<rparr> 1 sample = Inr (RBool True, c')) \<and>
   (\<exists>c'. trigger \<lparr>sender = 7, blockNumber = 111\<rparr> 1 sample = Inr (RBool True, c'))"
proof -
  have h: "(1 :: u256) \<noteq> 0" "1 < nextSwitchId_value sample"
    by (simp_all add: sample_facts)
  have t: "\<forall>caller. \<exists>c'. trigger (\<lparr>sender = 3, blockNumber = 111\<rparr>\<lparr>sender := caller\<rparr>) 1 sample = Inr (RBool True, c')"
    using access_control [OF h, of "\<lparr>sender = 3, blockNumber = 111\<rparr>" 0 "[1]" "[1]" 1 1]
    by (simp add: sample_facts status_defs)
  show ?thesis
    using h t [rule_format, of 3] t [rule_format, of 7]
      access_control [OF h, of "\<lparr>sender = 3, blockNumber = 111\<rparr>" 0 "[1]" "[1]" 1 1]
    by (simp add: sample_facts)
qed

subsection \<open>Claim C8\<close>

text \<open>
  Claim C8 (chunk count law). For an existing record whose chunk count is 0, after any
  sequence of \<open>storeData\<close> calls (for this or other records) the chunk count is 1 plus the
  largest chunk index of the successful calls for that record, or 0 if none succeeded. In a
  state reached from deployment no call decreases the chunk count of an existing record, and
  a call that increases it is a \<open>storeData\<close> of that record at an index at or above the old
  count, which sets the count to that index plus 1. Records are keyed by the low 30 bytes of
  their identifier: both parts are for fewer than \<open>2^240\<close> records, respectively calls.
\<close>

theorem chunk_count_law:
  "(i \<noteq> 0 \<and> i < nextSwitchId_value c \<and> unat (nextSwitchId_value c) \<le> 2 ^ 240 \<and>
    loadSwitchChunkCount i c = 0 \<longrightarrow>
      unat (loadSwitchChunkCount i (run (storeData_calls stores) c)) =
        (if successful_chunks i stores c = [] then 0
         else 1 + Max (set (map unat (successful_chunks i stores c))))) \<and>
   (Suc (length calls) < 2 ^ 240 \<and> i \<noteq> 0 \<and> i < nextSwitchId_value (run calls deployed) \<longrightarrow>
      loadSwitchChunkCount i (run calls deployed) \<le> loadSwitchChunkCount i (step e cl (run calls deployed)) \<and>
      (loadSwitchChunkCount i (run calls deployed) < loadSwitchChunkCount i (step e cl (run calls deployed)) \<longrightarrow>
         (\<exists>idx d. cl = StoreData i idx d \<and> loadSwitchChunkCount i (run calls deployed) \<le> idx \<and>
                  unat idx + 1 < 2 ^ 256 \<and>
                  loadSwitchChunkCount i (step e cl (run calls deployed)) = idx + 1)))"
proof (intro conjI impI)
  assume "i \<noteq> 0 \<and> i < nextSwitchId_value c \<and> unat (nextSwitchId_value c) \<le> 2 ^ 240 \<and>
    loadSwitchChunkCount i c = 0"
  then show "unat (loadSwitchChunkCount i (run (storeData_calls stores) c)) =
        (if successful_chunks i stores c = [] then 0
         else 1 + Max (set (map unat (successful_chunks i stores c))))"
    using storeData_seq [of i c stores] by simp
next
  define s where "s = run calls deployed"
  assume a: "Suc (length calls) < 2 ^ 240 \<and> i \<noteq> 0 \<and> i < nextSwitchId_value (run calls deployed)"
  then have fi: "fresh_inv s" and nb: "unat (nextSwitchId_value s) < 2 ^ 240"
    unfolding s_def using reach_inv [of calls] by simp_all
  have ex: "i < nextSwitchId_value s" using a by (simp add: s_def)
  have same: "j = i" if "u256ToSubPointer j = u256ToSubPointer i" "j < nextSwitchId_value s" for j
    using existing_sub_eq [OF that ex] nb by simp
  have nocreate: False if n: "u256ToSubPointer (nextSwitchId_value s) = u256ToSubPointer i"
  proof -
    have "unat i < unat (nextSwitchId_value s)" using ex by (simp add: word_less_nat_alt)
    then have "unat i < 2 ^ 240" "unat i \<noteq> unat (nextSwitchId_value s)" using nb by simp_all
    then show False using u256ToSubPointer_inj [OF n nb] by auto
  qed
  have main: "loadSwitchChunkCount i (step e cl s) = loadSwitchChunkCount i s \<or>
     (\<exists>idx d. cl = StoreData i idx d \<and> loadSwitchChunkCount i s < idx + 1 \<and> unat idx + 1 < 2 ^ 256 \<and>
         loadSwitchChunkCount i (step e cl s) = idx + 1)"
  proof (cases "loadSwitchChunkCount i (step e cl s) = loadSwitchChunkCount i s")
    case False
    then show ?thesis using step_chunk [OF False] same nocreate by auto
  qed simp
  have le: "x \<le> idx" if "x < idx + 1" "unat idx + 1 < 2 ^ 256" for x idx :: u256
    using that unat_succ_u256 [of idx] by (simp add: word_less_nat_alt word_le_nat_alt)
  show "loadSwitchChunkCount i (run calls deployed) \<le> loadSwitchChunkCount i (step e cl (run calls deployed))"
    using main unfolding s_def [symmetric] by auto
  show "\<exists>idx d. cl = StoreData i idx d \<and> loadSwitchChunkCount i (run calls deployed) \<le> idx \<and>
                  unat idx + 1 < 2 ^ 256 \<and>
                  loadSwitchChunkCount i (step e cl (run calls deployed)) = idx + 1"
    if "loadSwitchChunkCount i (run calls deployed) < loadSwitchChunkCount i (step e cl (run calls deployed))"
    using main that le unfolding s_def [symmetric] by auto
qed

theorem chunk_count_law_witness:
  "(1 :: u256) \<noteq> 0 \<and> 1 < nextSwitchId_value sample \<and> unat (nextSwitchId_value sample) \<le> 2 ^ 240 \<and>
   loadSwitchChunkCount 1 sample = 0 \<and>
   successful_chunks 1 [(env0, 1, 2, [1, 2, 3])] sample = [2] \<and>
   unat (loadSwitchChunkCount 1 (run (storeData_calls [(env0, 1, 2, [1, 2, 3])]) sample)) = 3 \<and>
   Suc (length [(env0, CreateSwitch 9 10 5)]) < 2 ^ 240 \<and>
   1 < nextSwitchId_value (run [(env0, CreateSwitch 9 10 5)] deployed) \<and>
   loadSwitchChunkCount 1 (run [(env0, CreateSwitch 9 10 5)] deployed)
     < loadSwitchChunkCount 1 (step env0 (StoreData 1 2 [1, 2, 3]) (run [(env0, CreateSwitch 9 10 5)] deployed)) \<and>
   loadSwitchChunkCount 1 (step env0 (StoreData 1 2 [1, 2, 3]) (run [(env0, CreateSwitch 9 10 5)] deployed)) = 2 + 1"
proof -
  have r: "run [(env0, CreateSwitch 9 10 5)] deployed = sample"
    by (simp add: sample_def)
  have s: "step env0 (StoreData 1 2 [1, 2, 3]) sample = hole_sample"
    by (simp add: hole_sample_def)
  have sc: "successful_chunks 1 [(env0, 1, 2, [1, 2, 3])] sample = [2]"
    by (simp add: storeData_sample)
  have lt: "(0 :: u256) < 3" by (simp add: word_less_nat_alt)
  show ?thesis
    unfolding r s sc
    using chunk_count_law [of 1 sample "[(env0, 1, 2, [1, 2, 3])]" "[(env0, CreateSwitch 9 10 5)]"
        env0 "StoreData 1 2 [1, 2, 3]", unfolded r s sc] lt
    by (simp add: sample_facts hole_sample_facts)
qed

subsection \<open>Claim C9\<close>

text \<open>
  Claim C9 (capacity limit). \<open>storeMultiSlotBytes\<close> fails, and then with
  "Data exceeds maximum storage capacity", exactly when the payload is longer than
  \<open>256 * 32 - 4 = 8188\<close> bytes; a shorter payload is stored and changes at most 256 slots.
  \<open>storeData\<close> and \<open>storeDecryptionKey\<close>, called by the owner of an existing active switch,
  fail with that error exactly for those payloads.
\<close>

theorem capacity_limit:
  "(storeMultiSlotBytes p s d st = Inl (Revert ''Data exceeds maximum storage capacity'')
      \<longleftrightarrow> length d > 256 * 32 - 4) \<and>
   ((\<exists>err. storeMultiSlotBytes p s d st = Inl err) \<longleftrightarrow> length d > 256 * 32 - 4) \<and>
   (length d \<le> 256 * 32 - 4 \<longrightarrow>
      (\<exists>st'. storeMultiSlotBytes p s d st = Inr st' \<and>
             finite {k. st' k \<noteq> st k} \<and> card {k. st' k \<noteq> st k} \<le> 256)) \<and>
   (switchId \<noteq> 0 \<and> switchId < nextSwitchId_value c \<and> sender e = loadSwitchOwner switchId c \<and>
    loadSwitchStatus switchId c = STATUS_ACTIVE \<longrightarrow>
      (storeData e switchId chunkIndex d c = Inl (Revert ''Data exceeds maximum storage capacity'')
         \<longleftrightarrow> length d > 256 * 32 - 4) \<and>
      (storeDecryptionKey e switchId d c = Inl (Revert ''Data exceeds maximum storage capacity'')
         \<longleftrightarrow> length d > 256 * 32 - 4))"
proof (intro conjI impI)
  show "storeMultiSlotBytes p s d st = Inl (Revert ''Data exceeds maximum storage capacity'')
      \<longleftrightarrow> length d > 256 * 32 - 4"
    by (simp add: storeMultiSlotBytes_cases)
  show "(\<exists>err. storeMultiSlotBytes p s d st = Inl err) \<longleftrightarrow> length d > 256 * 32 - 4"
    by (simp add: storeMultiSlotBytes_cases)
next
  assume len: "length d \<le> 256 * 32 - 4"
  then obtain st' where st': "storeMultiSlotBytes p s d st = Inr st'"
    using storeMultiSlotBytes_ok [of d p s st] by auto
  let ?S = "insert (encodePointer p s) (bigEndianAdd (encodePointer p s) ` {1..<256})"
  have sub: "{k. st' k \<noteq> st k} \<subseteq> ?S"
  proof
    fix k assume "k \<in> {k. st' k \<noteq> st k}"
    then have ne: "st' k \<noteq> st k" by simp
    show "k \<in> ?S"
    proof (rule ccontr)
      assume n: "k \<notin> ?S"
      have "st' k = st k"
      proof (rule store_frame_exact [OF st'])
        show "k \<noteq> encodePointer p s" using n by simp
      next
        fix j :: nat assume j: "1 \<le> j" "28 + 32 * (j - 1) < length d"
        then have "j \<in> {1..<256}" using len by simp
        then show "k \<noteq> bigEndianAdd (encodePointer p s) j" using n by blast
      qed
      then show False using ne by simp
    qed
  qed
  have fin: "finite ?S" by simp
  have "card (bigEndianAdd (encodePointer p s) ` {1..<256}) \<le> card {1..<256 :: nat}"
    by (rule card_image_le) simp
  moreover have "card ?S \<le> Suc (card (bigEndianAdd (encodePointer p s) ` {1..<256}))"
    by (simp add: card_insert_if)
  ultimately have c: "card ?S \<le> 256" by simp
  have "card {k. st' k \<noteq> st k} \<le> card ?S"
    using sub fin by (rule card_mono [rotated])
  then show "\<exists>st'. storeMultiSlotBytes p s d st = Inr st' \<and>
             finite {k. st' k \<noteq> st k} \<and> card {k. st' k \<noteq> st k} \<le> 256"
    using st' c finite_subset [OF sub fin] by (intro exI [of _ st']) simp
next
  assume a: "switchId \<noteq> 0 \<and> switchId < nextSwitchId_value c \<and> sender e = loadSwitchOwner switchId c \<and>
    loadSwitchStatus switchId c = STATUS_ACTIVE"
  have cases: "(length d > 8188 \<and> storeMultiSlotBytes p' s' d (store c) = Inl (Revert ''Data exceeds maximum storage capacity''))
      \<or> (length d \<le> 8188 \<and> (\<exists>st'. storeMultiSlotBytes p' s' d (store c) = Inr st'))" for p' s'
    by (simp add: storeMultiSlotBytes_def MAX_BYTE_SLOTS_def Let_def)
  show "storeData e switchId chunkIndex d c = Inl (Revert ''Data exceeds maximum storage capacity'')
         \<longleftrightarrow> length d > 256 * 32 - 4"
    using a cases [of switchDataChunksPointer "compoundSubPointer switchId chunkIndex"]
    by (auto simp add: storeData_eq not_le split: if_splits)
  show "storeDecryptionKey e switchId d c = Inl (Revert ''Data exceeds maximum storage capacity'')
         \<longleftrightarrow> length d > 256 * 32 - 4"
    using a cases [of switchEncryptedKeyPointer "u256ToSubPointer switchId"]
    by (auto simp add: storeDecryptionKey_eq not_le)
qed

theorem capacity_limit_witness:
  "length [1, 2, 3 :: u8] \<le> 256 * 32 - 4 \<and>
   (1 :: u256) \<noteq> 0 \<and> 1 < nextSwitchId_value sample \<and> sender env0 = loadSwitchOwner 1 sample \<and>
   loadSwitchStatus 1 sample = STATUS_ACTIVE \<and>
   (\<exists>st'. storeMultiSlotBytes 10 (compoundSubPointer 1 2) [1, 2, 3] Map.empty = Inr st' \<and>
          card {k. st' k \<noteq> Map.empty k} \<le> 256) \<and>
   storeData env0 1 2 [1, 2, 3] sample \<noteq> Inl (Revert ''Data exceeds maximum storage capacity'') \<and>
   storeData env0 1 2 (replicate 8189 0) sample = Inl (Revert ''Data exceeds maximum storage capacity'')"
  using capacity_limit [of 10 "compoundSubPointer 1 2" "[1, 2, 3]" Map.empty 1 sample env0 2]
    capacity_limit [of 10 "compoundSubPointer 1 2" "replicate 8189 0" Map.empty 1 sample env0 2]
  by (auto simp add: sample_facts env0_def status_defs)

subsection \<open>Claim C10\<close>

text \<open>
  Claim C10 (a hole reads as empty). For an existing switch and a chunk index below the
  chunk count whose storage key was never written, \<open>getData\<close> does not fail: the length
  bytes of the unset slot are zero, and it returns the empty byte array.
\<close>

theorem hole_read_empty:
  assumes ex: "switchId \<noteq> 0" "switchId < nextSwitchId_value c"
    and lt: "chunkIndex < loadSwitchChunkCount switchId c"
    and unset: "store c (encodePointer switchDataChunksPointer (compoundSubPointer switchId chunkIndex)) = None"
  shows "getData switchId chunkIndex c = Inr (RBytes [], c)"
proof -
  have g: "getStorageAt (store c) (encodePointer switchDataChunksPointer (compoundSubPointer switchId chunkIndex))
           = new_Uint8Array 32"
    using unset by (simp add: getStorageAt_def)
  have z: "push_bit 24 (ucast (new_Uint8Array 32 ! 0) :: u32) OR push_bit 16 (ucast (new_Uint8Array 32 ! 1) :: u32)
             OR push_bit 8 (ucast (new_Uint8Array 32 ! 2) :: u32) OR (ucast (new_Uint8Array 32 ! 3) :: u32) = 0"
    by (simp add: new_Uint8Array_def)
  have "loadMultiSlotBytes switchDataChunksPointer (compoundSubPointer switchId chunkIndex) (store c) = Inr []"
    using loadMultiSlotBytes_eq [OF g z] by simp
  then show ?thesis using ex lt by (simp add: getData_eq not_le)
qed

theorem hole_read_empty_witness:
  "(1 :: u256) \<noteq> 0 \<and> 1 < nextSwitchId_value hole_sample \<and>
   1 < loadSwitchChunkCount 1 hole_sample \<and>
   store hole_sample (encodePointer switchDataChunksPointer (compoundSubPointer 1 1)) = None \<and>
   getData 1 1 hole_sample = Inr (RBytes [], hole_sample)"
proof -
  have h: "(1 :: u256) \<noteq> 0" "1 < nextSwitchId_value hole_sample"
   "1 < loadSwitchChunkCount 1 hole_sample"
   "store hole_sample (encodePointer switchDataChunksPointer (compoundSubPointer 1 1)) = None"
    by (simp_all add: hole_sample_facts)
  show ?thesis using h hole_read_empty [OF h] by simp
qed


end
